theory Spec2Isabelle
  imports Main
begin

text \<open>
  The caches of CacheManager.js (BaseCache and, built on it, the caches of zap events,
  of references and of load states) and the pagination of the ZapSubscriptionManager, as
  functions on explicit state.  JavaScript runs this code on one thread: a function body
  without \<^verbatim>\<open>await\<close> runs to completion, and what a collaborator does behind an \<^verbatim>\<open>await\<close>
  (the relay subscription, the identifier decoder, the list UI) is a parameter of the
  function that awaits it.  \<^verbatim>\<open>loadMoreZaps\<close> awaits while other code may run: it is given
  in two parts, before and after its wait, with the \<^verbatim>\<open>onevent\<close> handler of its subscription
  between and after them, and the load state objects live in a store of their own, so
  that a reference taken before the wait and the entry of the cache after it can differ.
\<close>

section \<open>The JavaScript Map\<close>

text \<open>
  A JavaScript \<^verbatim>\<open>Map\<close> keeps its entries in insertion order.  \<^verbatim>\<open>Map.set\<close> on a key that
  is already present replaces the value and leaves the entry where it is; on a new key it
  appends.  \<^verbatim>\<open>map.keys().next().value\<close> is the first key in that order, or undefined
  (\<open>None\<close>) on an empty Map.  The model is an association list with distinct keys.
\<close>

type_synonym ('k, 'v) jsmap = "('k \<times> 'v) list"

definition jsmap_get :: "('k, 'v) jsmap \<Rightarrow> 'k \<Rightarrow> 'v option" where
  "jsmap_get m k = map_of m k"

definition jsmap_has :: "('k, 'v) jsmap \<Rightarrow> 'k \<Rightarrow> bool" where
  "jsmap_has m k = (map_of m k \<noteq> None)"

fun jsmap_set :: "('k, 'v) jsmap \<Rightarrow> 'k \<Rightarrow> 'v \<Rightarrow> ('k, 'v) jsmap" where
  "jsmap_set [] k v = [(k, v)]"
| "jsmap_set (p # m) k v = (if fst p = k then (k, v) # m else p # jsmap_set m k v)"

definition jsmap_delete :: "('k, 'v) jsmap \<Rightarrow> 'k \<Rightarrow> ('k, 'v) jsmap" where
  "jsmap_delete m k = filter (\<lambda>p. fst p \<noteq> k) m"

definition jsmap_size :: "('k, 'v) jsmap \<Rightarrow> nat" where
  "jsmap_size m = length m"

definition jsmap_first_key :: "('k, 'v) jsmap \<Rightarrow> 'k option" where
  "jsmap_first_key m = (case m of [] \<Rightarrow> None | p # _ \<Rightarrow> Some (fst p))"

text \<open>
  A value stored in a Map is an object reference: assigning to a field of the object, or
  pushing to and sorting a stored array, changes what the Map holds under that key
  without moving the entry.
\<close>

definition jsmap_mutate :: "('v \<Rightarrow> 'v) \<Rightarrow> 'k \<Rightarrow> ('k, 'v) jsmap \<Rightarrow> ('k, 'v) jsmap" where
  "jsmap_mutate f k m = map (\<lambda>p. if fst p = k then (fst p, f (snd p)) else p) m"


section \<open>BaseCache (CacheManager.js)\<close>

text \<open>
  \<^verbatim>\<open>accessOrder\<close> maps each key to the \<^verbatim>\<open>Date.now()\<close> of its last touch.  The timestamp
  is never read, only the key order of the Map is (\<^verbatim>\<open>accessOrder.keys().next().value\<close>),
  so the stored timestamp is the unit value.
\<close>

record ('k, 'v) BaseCache =
  cache :: "('k, 'v) jsmap"
  maxSize :: nat
  accessOrder :: "('k, unit) jsmap"

definition new_BaseCache :: "nat \<Rightarrow> ('k, 'v) BaseCache" where
  "new_BaseCache n = \<lparr>cache = [], maxSize = n, accessOrder = []\<rparr>"

definition BaseCache_set :: "('k, 'v) BaseCache \<Rightarrow> 'k \<Rightarrow> 'v \<Rightarrow> ('k, 'v) BaseCache \<times> 'v" where
  "BaseCache_set c key val =
     (let c1 = (if maxSize c \<le> jsmap_size (cache c) \<and> \<not> jsmap_has (cache c) key
                then (case jsmap_first_key (accessOrder c) of
                        None \<Rightarrow> c
                      | Some oldestKey \<Rightarrow>
                          c\<lparr>cache := jsmap_delete (cache c) oldestKey,
                            accessOrder := jsmap_delete (accessOrder c) oldestKey\<rparr>)
                else c)
      in (c1\<lparr>cache := jsmap_set (cache c1) key val,
             accessOrder := jsmap_set (jsmap_delete (accessOrder c1) key) key ()\<rparr>, val))"

definition BaseCache_get :: "('k, 'v) BaseCache \<Rightarrow> 'k \<Rightarrow> ('k, 'v) BaseCache \<times> 'v option" where
  "BaseCache_get c key =
     (if \<not> jsmap_has (cache c) key then (c, None)
      else (c\<lparr>accessOrder := jsmap_set (accessOrder c) key ()\<rparr>, jsmap_get (cache c) key))"

definition BaseCache_has :: "('k, 'v) BaseCache \<Rightarrow> 'k \<Rightarrow> bool" where
  "BaseCache_has c key = jsmap_has (cache c) key"

definition BaseCache_delete :: "('k, 'v) BaseCache \<Rightarrow> 'k \<Rightarrow> ('k, 'v) BaseCache" where
  "BaseCache_delete c key = c\<lparr>cache := jsmap_delete (cache c) key\<rparr>"

definition BaseCache_clear :: "('k, 'v) BaseCache \<Rightarrow> ('k, 'v) BaseCache" where
  "BaseCache_clear c = c\<lparr>cache := []\<rparr>"

text \<open>A caller's sequence of operations on one cache instance.\<close>

datatype ('k, 'v) cache_op = Set 'k 'v | Get 'k | Has 'k | Delete 'k | Clear

fun apply_op :: "('k, 'v) cache_op \<Rightarrow> ('k, 'v) BaseCache \<Rightarrow> ('k, 'v) BaseCache" where
  "apply_op (Set k v) c = fst (BaseCache_set c k v)"
| "apply_op (Get k) c = fst (BaseCache_get c k)"
| "apply_op (Has k) c = c"
| "apply_op (Delete k) c = BaseCache_delete c k"
| "apply_op Clear c = BaseCache_clear c"

definition run_ops :: "('k, 'v) cache_op list \<Rightarrow> ('k, 'v) BaseCache \<Rightarrow> ('k, 'v) BaseCache" where
  "run_ops ops c = fold apply_op ops c"


section \<open>Receipt events and the ZapEventCache (CacheManager.js)\<close>

text \<open>
  The fields of a zap receipt that the cache and the subscription manager read.  The
  optional \<^verbatim>\<open>reference\<close> attached after resolution is not part of the record: no
  function modelled here reads it.
\<close>

record event =
  id_ev :: string
  created_at :: int
  kind :: int
  pubkey :: string
  content :: string
  tags :: "string list list"
  isRealTimeEvent :: bool

type_synonym ZapEventCache = "(string, event list) BaseCache"

text \<open>\<^verbatim>\<open>events.sort((a, b) => b.created_at - a.created_at)\<close>: a stable sort, newest first.\<close>

definition sort_desc :: "event list \<Rightarrow> event list" where
  "sort_desc es = sort_key (\<lambda>e. - created_at e) es"

definition getEvents :: "ZapEventCache \<Rightarrow> string \<Rightarrow> ZapEventCache \<times> event list" where
  "getEvents c viewId =
     (case BaseCache_get c viewId of
        (c', None) \<Rightarrow> (c', [])
      | (c', Some es) \<Rightarrow> (c', es))"

definition setEvents :: "ZapEventCache \<Rightarrow> string \<Rightarrow> event list \<Rightarrow> bool \<Rightarrow> ZapEventCache" where
  "setEvents c viewId events maintainOrder =
     (let (c1, currentEvents) = (if maintainOrder then getEvents c viewId else (c, []));
          existingEvents = filter (\<lambda>e. id_ev e \<notin> set (map id_ev events)) currentEvents;
          mergedEvents = existingEvents @ events
      in fst (BaseCache_set c1 viewId mergedEvents))"

definition isDuplicate :: "event list \<Rightarrow> event \<Rightarrow> bool" where
  "isDuplicate events ev =
     list_ex (\<lambda>e. id_ev e = id_ev ev \<or>
                  (kind e = kind ev \<and> pubkey e = pubkey ev \<and>
                   content e = content ev \<and> created_at e = created_at ev)) events"

text \<open>
  \<^verbatim>\<open>addEvent(viewId, event)\<close>.  \<open>None\<close> is a null or undefined event; an empty id is the
  falsy id of \<^verbatim>\<open>!event?.id\<close>.  \<^verbatim>\<open>getEvents\<close> hands out the array stored under the view
  (or a fresh empty one), so \<^verbatim>\<open>push\<close> and \<^verbatim>\<open>sort\<close> change the stored array in place before
  \<^verbatim>\<open>setEvents\<close> reads it again.
\<close>

definition addEvent :: "ZapEventCache \<Rightarrow> string \<Rightarrow> event option \<Rightarrow> ZapEventCache \<times> bool" where
  "addEvent c viewId event =
     (case event of
        None \<Rightarrow> (c, False)
      | Some ev \<Rightarrow>
          if id_ev ev = [] then (c, False)
          else
            (let (c1, events) = getEvents c viewId
             in if isDuplicate events ev then (c1, False)
                else
                  (let events' = sort_desc (events @ [ev]);
                       c2 = c1\<lparr>cache := jsmap_mutate (\<lambda>_. events') viewId (cache c1)\<rparr>
                   in (setEvents c2 viewId events' True, True))))"

text \<open>A sequence of \<^verbatim>\<open>addEvent\<close> calls, each running to completion before the next.\<close>

definition addEvents :: "(string \<times> event option) list \<Rightarrow> ZapEventCache \<Rightarrow> ZapEventCache" where
  "addEvents calls c = fold (\<lambda>p c. fst (addEvent c (fst p) (snd p))) calls c"

definition sorted_desc :: "event list \<Rightarrow> bool" where
  "sorted_desc es = sorted_wrt (\<lambda>a b. created_at b \<le> created_at a) es"

definition count_id :: "string \<Rightarrow> event list \<Rightarrow> nat" where
  "count_id i es = length (filter (\<lambda>e. id_ev e = i) es)"

definition count_same :: "event \<Rightarrow> event list \<Rightarrow> nat" where
  "count_same ev es =
     length (filter (\<lambda>e. kind e = kind ev \<and> pubkey e = pubkey ev \<and>
                         content e = content ev \<and> created_at e = created_at ev) es)"


section \<open>ReferenceCache (CacheManager.js)\<close>

text \<open>
  \<^verbatim>\<open>getOrFetch\<close> has no \<^verbatim>\<open>await\<close> of its own: a call runs its whole body at once (the
  cache lookup, the lookup of the pending promise, the call of \<^verbatim>\<open>fetchFn\<close> and the
  registration of the promise), and the \<^verbatim>\<open>then\<close>/\<^verbatim>\<open>catch\<close> handler runs later as a
  second step, when the fetch settles.  Promises are numbered as they are created;
  \<open>fetchCalls\<close> records the event id of every call made to a \<^verbatim>\<open>fetchFn\<close>.  Stored
  references are event objects, hence truthy; a fetch that finds nothing yields null
  (\<open>None\<close>).
\<close>

record 'r ReferenceCache =
  refs :: "(string, 'r) BaseCache"
  pendingFetches :: "(string, nat) jsmap"
  nextPromise :: nat
  fetchCalls :: "string list"

datatype 'r fetch_return = Cached 'r | Pending nat

datatype 'r fetch_outcome = Fulfilled "'r option" | Rejected

definition getOrFetch :: "'r ReferenceCache \<Rightarrow> string \<Rightarrow> 'r ReferenceCache \<times> 'r fetch_return" where
  "getOrFetch rc eventId =
     (case BaseCache_get (refs rc) eventId of
        (b, Some cached) \<Rightarrow> (rc\<lparr>refs := b\<rparr>, Cached cached)
      | (b, None) \<Rightarrow>
          (case jsmap_get (pendingFetches rc) eventId of
             Some fetching \<Rightarrow> (rc\<lparr>refs := b\<rparr>, Pending fetching)
           | None \<Rightarrow>
               (rc\<lparr>refs := b,
                   fetchCalls := fetchCalls rc @ [eventId],
                   pendingFetches := jsmap_set (pendingFetches rc) eventId (nextPromise rc),
                   nextPromise := Suc (nextPromise rc)\<rparr>,
                Pending (nextPromise rc))))"

text \<open>
  The handler attached to the fetch of \<open>eventId\<close>; the second component is the value the
  pending promise resolves to.
\<close>

definition fetchSettled :: "'r ReferenceCache \<Rightarrow> string \<Rightarrow> 'r fetch_outcome \<Rightarrow> 'r ReferenceCache \<times> 'r option" where
  "fetchSettled rc eventId outcome =
     (case outcome of
        Fulfilled reference \<Rightarrow>
          (let rc1 = (case reference of
                         None \<Rightarrow> rc
                       | Some r \<Rightarrow> rc\<lparr>refs := fst (BaseCache_set (refs rc) eventId r)\<rparr>)
           in (rc1\<lparr>pendingFetches := jsmap_delete (pendingFetches rc1) eventId\<rparr>, reference))
      | Rejected \<Rightarrow>
          (rc\<lparr>pendingFetches := jsmap_delete (pendingFetches rc) eventId\<rparr>, None))"


section \<open>LoadStateCache (CacheManager.js)\<close>

record LoadState =
  isInitialFetchComplete :: bool
  lastEventTime :: "int option"
  isLoading :: bool
  currentCount :: int

text \<open>
  The cache holds references to load state objects.  \<^verbatim>\<open>getLoadState\<close> hands out the
  reference stored under the view; whoever holds it reads and writes the object itself,
  whatever the cache holds under the view by then.  \<^verbatim>\<open>updateLoadState\<close> does not write
  to the stored object: it stores a new one, a copy with the updates applied
  (\<^verbatim>\<open>{ ...currentState, ...updates }\<close>).  \<open>objects\<close> gives the object at each
  reference, \<open>allocated\<close> is the number of objects created so far.
\<close>

record LoadStateCache =
  stateRefs :: "(string, nat) BaseCache"
  objects :: "nat \<Rightarrow> LoadState"
  allocated :: nat

definition initialState :: LoadState where
  "initialState = \<lparr>isInitialFetchComplete = False, lastEventTime = None,
                    isLoading = False, currentCount = 0\<rparr>"

definition newObject :: "LoadState \<Rightarrow> LoadStateCache \<Rightarrow> LoadStateCache \<times> nat" where
  "newObject st lc =
     (lc\<lparr>objects := (objects lc)(allocated lc := st), allocated := Suc (allocated lc)\<rparr>,
      allocated lc)"

definition initializeLoadState :: "LoadStateCache \<Rightarrow> string \<Rightarrow> LoadStateCache \<times> nat" where
  "initializeLoadState lc viewId =
     (case newObject initialState lc of
        (lc1, state) \<Rightarrow>
          (lc1\<lparr>stateRefs := fst (BaseCache_set (stateRefs lc1) viewId state)\<rparr>, state))"

definition getLoadState :: "LoadStateCache \<Rightarrow> string \<Rightarrow> LoadStateCache \<times> nat" where
  "getLoadState lc viewId =
     (case jsmap_get (cache (stateRefs lc)) viewId of
        None \<Rightarrow> initializeLoadState lc viewId
      | Some state \<Rightarrow> (lc\<lparr>stateRefs := fst (BaseCache_get (stateRefs lc) viewId)\<rparr>, state))"

definition updateLoadState :: "LoadStateCache \<Rightarrow> string \<Rightarrow> (LoadState \<Rightarrow> LoadState) \<Rightarrow> LoadStateCache \<times> nat" where
  "updateLoadState lc viewId updates =
     (case getLoadState lc viewId of
        (lc1, currentState) \<Rightarrow>
          (case newObject (updates (objects lc1 currentState)) lc1 of
             (lc2, newState) \<Rightarrow>
               (lc2\<lparr>stateRefs := fst (BaseCache_set (stateRefs lc2) viewId newState)\<rparr>, newState)))"


section \<open>ZapSubscriptionManager\<close>

text \<open>
  The manager's state, together with the singleton cache manager's two caches it works
  on and the part of the document it touches: \<open>observers\<close> tells which views have an
  IntersectionObserver registered, \<open>loadTriggers\<close> gives the number of
  \<^verbatim>\<open>.load-more-trigger\<close> elements in the view's list element (\<open>None\<close> when the list
  element is not in the document), \<open>viewConfigs\<close> tells which views have a
  configuration.  \<open>subscribeCalls\<close> counts the calls of \<^verbatim>\<open>eventPool.subscribeToZaps\<close>.
\<close>

record ZapSubscriptionManager =
  loadStateCache :: LoadStateCache
  zapEventCache :: ZapEventCache
  viewConfigs :: "string \<Rightarrow> bool"
  observers :: "string \<Rightarrow> bool"
  loadTriggers :: "string \<Rightarrow> nat option"
  subscribeCalls :: nat

text \<open>
  What the collaborators outside this repository's sources do during one call:
  \<^item> \<open>batchSize\<close> is \<^verbatim>\<open>APP_CONFIG.REQ_CONFIG.ADDITIONAL_LOAD_COUNT\<close>;
  \<^item> \<open>decodeIdentifier\<close> (utils.js) returns a decoded filter (\<open>True\<close>) or null, or throws;
  \<^item> \<open>subscribeToZaps\<close> (EventPool.js) either throws, or delivers events one at a time
    in arrival order: first the events that arrive until \<^verbatim>\<open>_executeLoadMore\<close> resumes
    from its \<^verbatim>\<open>await\<close> of the collection, with the end of stream among them (\<open>True\<close>) or
    not (\<open>False\<close>: without a full batch the load timeout ends the wait), then the events
    that arrive after that.  The subscription is never closed, so events may also arrive
    after the call has returned;
  \<^item> the list UI's \<^verbatim>\<open>batchUpdate\<close> and \<^verbatim>\<open>updateZapReference\<close> may throw.
\<close>

datatype 'a completion = Returned 'a | Threw

datatype subscription = Delivers "event list" bool "event list" | SubscribeThrows

record collaborators =
  batchSize :: nat
  decodeIdentifier :: "bool completion"
  subscribeToZaps :: subscription
  batchUpdate_throws :: bool
  updateZapReference_throws :: bool

text \<open>
  JavaScript reads a null \<^verbatim>\<open>lastEventTime\<close> as the number 0 in \<^verbatim>\<open><\<close> and in
  \<^verbatim>\<open>Math.min\<close>, and as false in a condition, like the number 0.
\<close>

definition toNumber :: "int option \<Rightarrow> int" where
  "toNumber t = (case t of None \<Rightarrow> 0 | Some n \<Rightarrow> n)"

definition truthy :: "int option \<Rightarrow> bool" where
  "truthy t = (case t of None \<Rightarrow> False | Some n \<Rightarrow> n \<noteq> 0)"

definition canLoadMore :: "LoadState \<Rightarrow> bool \<Rightarrow> bool" where
  "canLoadMore state config = (config \<and> \<not> isLoading state \<and> truthy (lastEventTime state))"

definition cleanupInfiniteScroll :: "string \<Rightarrow> ZapSubscriptionManager \<Rightarrow> ZapSubscriptionManager" where
  "cleanupInfiniteScroll viewId s =
     (if \<not> observers s viewId then s
      else s\<lparr>loadTriggers := (loadTriggers s)(viewId := map_option (\<lambda>n. n - 1) (loadTriggers s viewId)),
             observers := (observers s)(viewId := False)\<rparr>)"

text \<open>
  The \<^verbatim>\<open>onevent\<close> handler of \<^verbatim>\<open>_collectEvents\<close>, run on events in arrival order, on the
  batch and the load state object as they are.  The handler has no guard on the promise
  being settled: it pushes and lowers the cursor for every event older than the cursor,
  also after the batch is full.  The third component tells whether it has called
  \<^verbatim>\<open>resolve\<close>, that is whether the batch was full after one of the pushes.
\<close>

fun collectEvents :: "nat \<Rightarrow> event list \<Rightarrow> event list \<Rightarrow> LoadState \<Rightarrow> event list \<times> LoadState \<times> bool" where
  "collectEvents limit [] batchEvents state = (batchEvents, state, False)"
| "collectEvents limit (ev # rest) batchEvents state =
     (if created_at ev < toNumber (lastEventTime state)
      then (let batchEvents' = batchEvents @ [ev];
                state' = state\<lparr>lastEventTime :=
                           Some (min (toNumber (lastEventTime state)) (created_at ev))\<rparr>
            in case collectEvents limit rest batchEvents' state' of
                 (batch, state'', resolved) \<Rightarrow>
                   (batch, state'', (limit \<le> length batchEvents' \<or> resolved)))
      else collectEvents limit rest batchEvents state)"

definition processBatchEvents :: "event list \<Rightarrow> string \<Rightarrow> ZapEventCache \<Rightarrow> ZapEventCache" where
  "processBatchEvents events viewId zc =
     fold (\<lambda>ev c. fst (addEvent c viewId (Some ev))) (sort_desc events) zc"

text \<open>
  A \<^verbatim>\<open>loadMoreZaps\<close> call that has passed its guard: \<open>capturedState\<close> is the load state
  object the call took from the cache at its start, which it and its \<^verbatim>\<open>onevent\<close> handler
  keep writing to; \<open>collected\<close> is the array \<^verbatim>\<open>batchEvents\<close> the handler pushes to; \<open>known\<close> is the
  result of \<^verbatim>\<open>_executeLoadMore\<close> where no subscription delivers to the call (the identifier
  did not decode, or \<^verbatim>\<open>subscribeToZaps\<close> threw).
\<close>

record pagination =
  capturedState :: nat
  collected :: "event list"
  resolveCalled :: bool
  known :: "nat completion option"

datatype started = Finished "nat completion" | InFlight pagination

definition assignLoading :: "bool \<Rightarrow> nat \<Rightarrow> ZapSubscriptionManager \<Rightarrow> ZapSubscriptionManager" where
  "assignLoading b state s =
     s\<lparr>loadStateCache :=
         (loadStateCache s)\<lparr>objects :=
           (objects (loadStateCache s))(state := (objects (loadStateCache s) state)\<lparr>isLoading := b\<rparr>)\<rparr>\<rparr>"

text \<open>Events arriving at the handler of a call in flight, at any time after its start.\<close>

definition onevents :: "nat \<Rightarrow> event list \<Rightarrow> pagination \<Rightarrow> ZapSubscriptionManager \<Rightarrow> pagination \<times> ZapSubscriptionManager" where
  "onevents limit delivered p s =
     (case known p of
        Some c \<Rightarrow> (p, s)
      | None \<Rightarrow>
          (case collectEvents limit delivered (collected p)
                  (objects (loadStateCache s) (capturedState p)) of
             (batch, state', resolved) \<Rightarrow>
               (p\<lparr>collected := batch, resolveCalled := (resolveCalled p \<or> resolved)\<rparr>,
                s\<lparr>loadStateCache :=
                    (loadStateCache s)\<lparr>objects :=
                      (objects (loadStateCache s))(capturedState p := state')\<rparr>\<rparr>)))"

text \<open>
  \<^verbatim>\<open>loadMoreZaps(viewId)\<close> up to its \<^verbatim>\<open>await\<close>: the guard, \<^verbatim>\<open>state.isLoading = true\<close> and
  the part of \<^verbatim>\<open>_executeLoadMore\<close> that runs at once (decoding the identifier, opening the
  subscription).
\<close>

definition loadMoreZaps_start :: "collaborators \<Rightarrow> string \<Rightarrow> ZapSubscriptionManager \<Rightarrow> ZapSubscriptionManager \<times> started" where
  "loadMoreZaps_start env viewId s =
     (case getLoadState (loadStateCache s) viewId of
        (lc, state) \<Rightarrow>
          (let s0 = s\<lparr>loadStateCache := lc\<rparr>
           in if \<not> canLoadMore (objects lc state) (viewConfigs s viewId)
              then (s0, Finished (Returned 0))
              else
                (let s1 = assignLoading True state s0;
                     p = \<lparr>capturedState = state, collected = [], resolveCalled = False, known = None\<rparr>
                 in case decodeIdentifier env of
                      Threw \<Rightarrow> (s1, InFlight (p\<lparr>known := Some Threw\<rparr>))
                    | Returned decoded \<Rightarrow>
                        if \<not> decoded then (s1, InFlight (p\<lparr>known := Some (Returned 0)\<rparr>))
                        else
                          (case subscribeToZaps env of
                             SubscribeThrows \<Rightarrow>
                               (s1\<lparr>subscribeCalls := Suc (subscribeCalls s1)\<rparr>,
                                InFlight (p\<lparr>known := Some (Returned 0)\<rparr>))
                           | Delivers early eose late \<Rightarrow>
                               (s1\<lparr>subscribeCalls := Suc (subscribeCalls s1)\<rparr>, InFlight p)))))"

text \<open>
  The rest of \<^verbatim>\<open>_executeLoadMore\<close>, from the moment the collection settles.  When the
  handler has called \<^verbatim>\<open>resolve\<close> or the end of stream has come, a batch that is not empty
  is sorted and added to the Event Store, the later events arrive while the profiles and
  the list UI are awaited, and the length of the batch is read after that; an empty batch
  returns 0 at once.  Otherwise both timers of \<^verbatim>\<open>APP_CONFIG.LOAD_TIMEOUT\<close> fire, one
  right after the other: the one set first tears the scroll observer down when the batch
  is empty, the second rejects the collection, which the \<^verbatim>\<open>catch\<close> turns into 0.  Where
  nothing is awaited the later events arrive after the result is fixed.
\<close>

definition executeLoadMore_rest :: "collaborators \<Rightarrow> string \<Rightarrow> bool \<Rightarrow> event list \<Rightarrow> pagination \<Rightarrow> ZapSubscriptionManager \<Rightarrow> ZapSubscriptionManager \<times> nat completion" where
  "executeLoadMore_rest env viewId eose late p s =
     (case known p of
        Some c \<Rightarrow> (s, c)
      | None \<Rightarrow>
          if resolveCalled p \<or> eose
          then (if collected p = [] then (snd (onevents (batchSize env) late p s), Returned 0)
                else
                  (let s1 = s\<lparr>zapEventCache :=
                               processBatchEvents (collected p) viewId (zapEventCache s)\<rparr>
                   in case onevents (batchSize env) late
                             (p\<lparr>collected := sort_desc (collected p)\<rparr>) s1 of
                        (p', s2) \<Rightarrow>
                          if batchUpdate_throws env then (s2, Returned 0)
                          else (s2, Returned (length (collected p')))))
          else (snd (onevents (batchSize env) late p
                       (if collected p = [] then cleanupInfiniteScroll viewId s else s)),
                Returned 0))"

text \<open>
  The rest of \<^verbatim>\<open>loadMoreZaps\<close>.  The \<^verbatim>\<open>finally\<close> block assigns to the object the call
  took at its start.  The resolution of secondary references for the new events goes
  through the ReferenceCache and leaves the state modelled here alone;
  \<^verbatim>\<open>updateUIReferences\<close> calls the list UI, which may throw.
\<close>

definition loadMoreZaps_finish :: "collaborators \<Rightarrow> string \<Rightarrow> bool \<Rightarrow> event list \<Rightarrow> pagination \<Rightarrow> ZapSubscriptionManager \<Rightarrow> ZapSubscriptionManager \<times> nat completion" where
  "loadMoreZaps_finish env viewId eose late p s =
     (case executeLoadMore_rest env viewId eose late p s of
        (s1, Threw) \<Rightarrow> (assignLoading False (capturedState p) s1, Threw)
      | (s1, Returned loadedCount) \<Rightarrow>
          if 0 < loadedCount
          then (case getEvents (zapEventCache s1) viewId of
                  (zc, events) \<Rightarrow>
                    (assignLoading False (capturedState p) (s1\<lparr>zapEventCache := zc\<rparr>),
                     if updateZapReference_throws env then Threw else Returned loadedCount))
          else (assignLoading False (capturedState p) s1, Returned loadedCount))"

text \<open>A \<^verbatim>\<open>loadMoreZaps\<close> call during which nothing else touches the manager.\<close>

definition loadMoreZaps :: "collaborators \<Rightarrow> string \<Rightarrow> ZapSubscriptionManager \<Rightarrow> ZapSubscriptionManager \<times> nat completion" where
  "loadMoreZaps env viewId s =
     (case loadMoreZaps_start env viewId s of
        (s1, Finished c) \<Rightarrow> (s1, c)
      | (s1, InFlight p) \<Rightarrow>
          (case subscribeToZaps env of
             SubscribeThrows \<Rightarrow> loadMoreZaps_finish env viewId False [] p s1
           | Delivers early eose late \<Rightarrow>
               (case onevents (batchSize env) early p s1 of
                  (p1, s2) \<Rightarrow> loadMoreZaps_finish env viewId eose late p1 s2)))"

datatype intersection = NotIntersecting | RetryScheduled | Loaded "nat completion"

definition handleIntersection :: "collaborators \<Rightarrow> bool \<Rightarrow> string \<Rightarrow> ZapSubscriptionManager \<Rightarrow> ZapSubscriptionManager \<times> intersection" where
  "handleIntersection env isIntersecting viewId s =
     (if \<not> isIntersecting then (s, NotIntersecting)
      else
        (case getLoadState (loadStateCache s) viewId of
           (lc, state) \<Rightarrow>
             if isLoading (objects lc state) then (s\<lparr>loadStateCache := lc\<rparr>, RetryScheduled)
             else
               (case loadMoreZaps env viewId (s\<lparr>loadStateCache := lc\<rparr>) of
                  (s1, Returned count) \<Rightarrow>
                    ((if count = 0 then cleanupInfiniteScroll viewId s1 else s1),
                     Loaded (Returned count))
                | (s1, Threw) \<Rightarrow> (cleanupInfiniteScroll viewId s1, Loaded Threw))))"

text \<open>
  The initialisation of a view writes its load state twice, both times through
  \<^verbatim>\<open>updateLoadState\<close>: \<^verbatim>\<open>_initializeLoadState\<close> at its start, \<^verbatim>\<open>finalizeInitialization\<close>
  when the initial collection has ended.  \<open>initialLoadCount\<close> is
  \<^verbatim>\<open>APP_CONFIG.REQ_CONFIG.INITIAL_LOAD_COUNT\<close>.
\<close>

definition initializeLoadState_manager :: "string \<Rightarrow> ZapSubscriptionManager \<Rightarrow> ZapSubscriptionManager" where
  "initializeLoadState_manager viewId s =
     s\<lparr>loadStateCache :=
         fst (updateLoadState (loadStateCache s) viewId
                (\<lambda>st. st\<lparr>isInitialFetchComplete := False, lastEventTime := None,
                          isLoading := False\<rparr>))\<rparr>"

definition setupInfiniteScroll :: "string \<Rightarrow> ZapSubscriptionManager \<Rightarrow> ZapSubscriptionManager" where
  "setupInfiniteScroll viewId s =
     (let s1 = cleanupInfiniteScroll viewId s
      in case loadTriggers s1 viewId of
           None \<Rightarrow> s1
         | Some n \<Rightarrow> s1\<lparr>loadTriggers := (loadTriggers s1)(viewId := Some (Suc n)),
                        observers := (observers s1)(viewId := True)\<rparr>)"

definition finalizeInitialization :: "nat \<Rightarrow> string \<Rightarrow> int option \<Rightarrow> ZapSubscriptionManager \<Rightarrow> ZapSubscriptionManager" where
  "finalizeInitialization initialLoadCount viewId lastTime s =
     (case getEvents (zapEventCache s) viewId of
        (zc, cachedEvents) \<Rightarrow>
          (let s1 = s\<lparr>zapEventCache := zc,
                      loadStateCache :=
                        fst (updateLoadState (loadStateCache s) viewId
                               (\<lambda>st. st\<lparr>isInitialFetchComplete := True,
                                         lastEventTime := lastTime\<rparr>))\<rparr>;
               s2 = (if initialLoadCount \<le> length cachedEvents then setupInfiniteScroll viewId s1
                     else s1)
           in s2\<lparr>loadTriggers :=
                   (loadTriggers s2)(viewId := map_option (\<lambda>n. n - 1) (loadTriggers s2 viewId))\<rparr>))"




text \<open>
  The batch a pagination subscription has collected from load state \<open>state\<close> when
  \<^verbatim>\<open>_executeLoadMore\<close> resumes: the arrivals older than the cursor, whatever the Event
  Store makes of them; \<open>None\<close> when the batch fails (the subscription throws, or neither a
  full batch nor the end of stream comes before the load timeout).
\<close>

definition collectedBatch :: "collaborators \<Rightarrow> LoadState \<Rightarrow> event list option" where
  "collectedBatch env state =
     (case subscribeToZaps env of
        SubscribeThrows \<Rightarrow> None
      | Delivers early eose late \<Rightarrow>
          (case collectEvents (batchSize env) early [] state of
             (batch, state', resolved) \<Rightarrow>
               if resolved \<or> eose then Some batch else None))"

definition viewEvents :: "ZapEventCache \<Rightarrow> string \<Rightarrow> event list" where
  "viewEvents c viewId = snd (getEvents c viewId)"

text \<open>The load state object the cache holds under a view, and the one a call finds there.\<close>

definition viewLoadState :: "ZapSubscriptionManager \<Rightarrow> string \<Rightarrow> LoadState option" where
  "viewLoadState s viewId =
     map_option (objects (loadStateCache s)) (jsmap_get (cache (stateRefs (loadStateCache s))) viewId)"

definition foundLoadState :: "ZapSubscriptionManager \<Rightarrow> string \<Rightarrow> LoadState" where
  "foundLoadState s viewId =
     (case getLoadState (loadStateCache s) viewId of (lc, state) \<Rightarrow> objects lc state)"


section \<open>Concrete inputs\<close>

definition zap :: "string \<Rightarrow> int \<Rightarrow> event" where
  "zap i t = \<lparr>id_ev = i, created_at = t, kind = 9735, pubkey = ''sender'', content = i,
              tags = [], isRealTimeEvent = False\<rparr>"

definition view_store :: "event list \<Rightarrow> ZapEventCache" where
  "view_store es = \<lparr>cache = [(''view'', es)], maxSize = 1000, accessOrder = [(''view'', ())]\<rparr>"

definition steady_manager :: "int \<Rightarrow> event list \<Rightarrow> ZapSubscriptionManager" where
  "steady_manager cursor es =
     \<lparr>loadStateCache =
        \<lparr>stateRefs = \<lparr>cache = [(''view'', 0)], maxSize = 1000, accessOrder = [(''view'', ())]\<rparr>,
         objects = (\<lambda>r. \<lparr>isInitialFetchComplete = True, lastEventTime = Some cursor,
                          isLoading = False, currentCount = 0\<rparr>),
         allocated = 1\<rparr>,
      zapEventCache = view_store es,
      viewConfigs = (\<lambda>v. v = ''view''),
      observers = (\<lambda>v. v = ''view''),
      loadTriggers = (\<lambda>v. if v = ''view'' then Some 1 else None),
      subscribeCalls = 0\<rparr>"

definition relays :: "event list \<Rightarrow> bool \<Rightarrow> collaborators" where
  "relays delivered eose =
     \<lparr>batchSize = 20, decodeIdentifier = Returned True, subscribeToZaps = Delivers delivered eose [],
      batchUpdate_throws = False, updateZapReference_throws = False\<rparr>"

definition pagination_scenario :: "event list \<Rightarrow> ZapSubscriptionManager \<times> nat completion" where
  "pagination_scenario arrival =
     loadMoreZaps (relays arrival True) ''view'' (steady_manager 1000 [zap ''e1000'' 1000])"

definition no_references :: "string ReferenceCache" where
  "no_references = \<lparr>refs = new_BaseCache 1000, pendingFetches = [], nextPromise = 0, fetchCalls = []\<rparr>"

definition same_receipt :: event where
  "same_receipt = (zap ''e2'' 1000)\<lparr>content := ''e1''\<rparr>"



definition other_view_store :: ZapEventCache where
  "other_view_store = \<lparr>cache = [(''other'', [zap ''o1'' 10, zap ''o2'' 20])], maxSize = 1000,
                        accessOrder = [(''other'', ())]\<rparr>"

definition interleaved_calls :: "(string \<times> event option) list" where
  "interleaved_calls =
     [(''view'', Some (zap ''e900'' 900)), (''view'', Some (zap ''e1000'' 1000)),
      (''other'', Some (zap ''o3'' 5)), (''view'', None), (''view'', Some (zap ''e950'' 950))]"

text \<open>
  Two initialisations of one view overlap.  The first has collected the receipt of time
  1000 and finalizes with the cursor at 1000, which arms the infinite scroll; the scroll
  starts a pagination; the second initialisation finalizes while the pagination is in
  flight; then the pagination receives the receipt of time 950 and the end of stream, and
  completes.
\<close>

definition opened_view :: ZapSubscriptionManager where
  "opened_view =
     \<lparr>loadStateCache = \<lparr>stateRefs = new_BaseCache 1000, objects = (\<lambda>r. initialState),
                          allocated = 0\<rparr>,
      zapEventCache = view_store [zap ''e1000'' 1000],
      viewConfigs = (\<lambda>v. v = ''view''),
      observers = (\<lambda>v. False),
      loadTriggers = (\<lambda>v. if v = ''view'' then Some 1 else None),
      subscribeCalls = 0\<rparr>"

definition armed_view :: ZapSubscriptionManager where
  "armed_view =
     finalizeInitialization 1 ''view'' (Some 1000)
       (initializeLoadState_manager ''view'' (initializeLoadState_manager ''view'' opened_view))"

definition overlapping_initialisations :: "ZapSubscriptionManager \<times> nat completion" where
  "overlapping_initialisations =
     (case loadMoreZaps_start (relays [zap ''e950'' 950] True) ''view'' armed_view of
        (s1, Finished c) \<Rightarrow> (s1, c)
      | (s1, InFlight p) \<Rightarrow>
          (case onevents 20 [zap ''e950'' 950] p
                  (finalizeInitialization 1 ''view'' (Some 1000) s1) of
             (p1, s2) \<Rightarrow>
               loadMoreZaps_finish (relays [zap ''e950'' 950] True) ''view'' True [] p1 s2))"

text \<open>
  A reopened view: the Event Store has kept the receipts of times 1000 and 950, the new
  initial collection has set the cursor to 1000.
\<close>

definition reopened_view :: ZapSubscriptionManager where
  "reopened_view = steady_manager 1000 [zap ''e1000'' 1000, zap ''e950'' 950]"


section \<open>Invariant of a cache that is only written and read\<close>

definition lru_inv :: "('k, 'v) BaseCache \<Rightarrow> bool" where
  "lru_inv c = (distinct (map fst (cache c)) \<and> distinct (map fst (accessOrder c)) \<and>
     fst ` set (cache c) = fst ` set (accessOrder c) \<and> length (cache c) \<le> maxSize c)"

fun no_removal :: "('k, 'v) cache_op \<Rightarrow> bool" where
  "no_removal (Delete k) = False"
| "no_removal Clear = False"
| "no_removal _ = True"


section \<open>Facts about the Map\<close>

lemma map_of_jsmap_set: "map_of (jsmap_set m k v) = (map_of m)(k \<mapsto> v)"
  by (induction m) (auto simp: fun_eq_iff)

lemma map_of_jsmap_delete: "map_of (jsmap_delete m k) k' = (if k' = k then None else map_of m k')"
  by (induction m) (auto simp: jsmap_delete_def)

lemma map_of_jsmap_mutate:
  "map_of (jsmap_mutate f k m) k' = (if k' = k then map_option f (map_of m k) else map_of m k')"
  by (induction m) (auto simp: jsmap_mutate_def)

lemma set_jsmap_set: "set (jsmap_set m k v) \<subseteq> insert (k, v) (set m)"
  by (induction m) auto

lemma set_jsmap_delete: "set (jsmap_delete m k) \<subseteq> set m"
  by (auto simp: jsmap_delete_def)

lemma snd_jsmap_mutate_const: "p \<in> set (jsmap_mutate (\<lambda>_. x) k m) \<Longrightarrow> p \<in> set m \<or> snd p = x"
  by (auto simp: jsmap_mutate_def split: if_splits)

lemma keys_jsmap_set: "fst ` set (jsmap_set m k v) = insert k (fst ` set m)"
  by (induction m) auto

lemma keys_jsmap_delete: "fst ` set (jsmap_delete m k) = fst ` set m - {k}"
  by (auto simp: jsmap_delete_def)

lemma distinct_jsmap_set: "distinct (map fst (jsmap_set m k v)) = distinct (map fst m)"
  by (induction m) (auto simp: keys_jsmap_set)

lemma distinct_jsmap_delete: "distinct (map fst m) \<Longrightarrow> distinct (map fst (jsmap_delete m k))"
  by (simp add: jsmap_delete_def distinct_map_filter)

lemma length_jsmap_set:
  "length (jsmap_set m k v) = (if k \<in> fst ` set m then length m else Suc (length m))"
  by (induction m) auto

lemma length_jsmap_delete:
  "distinct (map fst m) \<Longrightarrow> k \<in> fst ` set m \<Longrightarrow> Suc (length (jsmap_delete m k)) = length m"
proof (induction m)
  case Nil
  then show ?case by simp
next
  case (Cons p m)
  show ?case
  proof (cases "fst p = k")
    case True
    then have "k \<notin> fst ` set m" using Cons.prems(1) by auto
    then have "filter (\<lambda>q. fst q \<noteq> k) m = m" by (auto simp: filter_id_conv)
    then show ?thesis using True by (simp add: jsmap_delete_def)
  next
    case False
    then show ?thesis using Cons by (auto simp: jsmap_delete_def)
  qed
qed

lemma jsmap_has_keys: "jsmap_has m k = (k \<in> fst ` set m)"
  by (simp add: jsmap_has_def map_of_eq_None_iff)


section \<open>Facts about BaseCache\<close>

lemma cache_BaseCache_get [simp]: "cache (fst (BaseCache_get c k)) = cache c"
  by (simp add: BaseCache_get_def)

lemma map_of_BaseCache_set: "map_of (cache (fst (BaseCache_set c k v))) k = Some v"
  by (simp add: BaseCache_set_def Let_def map_of_jsmap_set split: option.splits)

lemma set_cache_BaseCache_set:
  "set (cache (fst (BaseCache_set c k v))) \<subseteq> insert (k, v) (set (cache c))"
  using set_jsmap_set[of "cache c" k v] set_jsmap_set[of "jsmap_delete (cache c) x" k v for x]
    set_jsmap_delete[of "cache c"]
  by (auto simp: BaseCache_set_def Let_def split: option.splits) blast+

lemma lru_inv_set:
  assumes "lru_inv c" "0 < maxSize c"
  shows "lru_inv (fst (BaseCache_set c k v)) \<and> maxSize (fst (BaseCache_set c k v)) = maxSize c"
proof -
  from assms have d: "distinct (map fst (cache c))" "distinct (map fst (accessOrder c))"
    "fst ` set (cache c) = fst ` set (accessOrder c)" "length (cache c) \<le> maxSize c"
    by (simp_all add: lru_inv_def)
  show ?thesis
  proof (cases "maxSize c \<le> length (cache c) \<and> k \<notin> fst ` set (cache c)")
    case False
    then have eq: "fst (BaseCache_set c k v) =
        c\<lparr>cache := jsmap_set (cache c) k v,
          accessOrder := jsmap_set (jsmap_delete (accessOrder c) k) k ()\<rparr>"
      by (auto simp: BaseCache_set_def jsmap_size_def jsmap_has_keys)
    show ?thesis using False d
      by (auto simp: eq lru_inv_def keys_jsmap_set keys_jsmap_delete distinct_jsmap_set
          distinct_jsmap_delete length_jsmap_set)
  next
    case True
    then have "cache c \<noteq> []" using assms(2) by auto
    then have "accessOrder c \<noteq> []" using d(3) by auto
    then obtain p rest where A: "accessOrder c = p # rest" by (cases "accessOrder c") auto
    then have pK: "fst p \<in> fst ` set (cache c)" using d(3) by simp
    have eq: "fst (BaseCache_set c k v) =
        c\<lparr>cache := jsmap_set (jsmap_delete (cache c) (fst p)) k v,
          accessOrder := jsmap_set (jsmap_delete (jsmap_delete (accessOrder c) (fst p)) k) k ()\<rparr>"
      using True by (simp add: BaseCache_set_def jsmap_size_def jsmap_has_keys jsmap_first_key_def A)
    have len: "Suc (length (jsmap_delete (cache c) (fst p))) = length (cache c)"
      by (rule length_jsmap_delete[OF d(1) pK])
    show ?thesis using True d len
      by (auto simp: eq lru_inv_def keys_jsmap_set keys_jsmap_delete distinct_jsmap_set
          distinct_jsmap_delete length_jsmap_set)
  qed
qed

lemma lru_inv_get:
  assumes "lru_inv c"
  shows "lru_inv (fst (BaseCache_get c k)) \<and> maxSize (fst (BaseCache_get c k)) = maxSize c"
  using assms
  by (auto simp: lru_inv_def BaseCache_get_def jsmap_has_keys keys_jsmap_set distinct_jsmap_set)

lemma lru_inv_run_ops:
  "lru_inv c \<Longrightarrow> 0 < maxSize c \<Longrightarrow> list_all no_removal ops \<Longrightarrow>
     lru_inv (run_ops ops c) \<and> maxSize (run_ops ops c) = maxSize c"
proof (induction ops arbitrary: c)
  case Nil
  then show ?case by (simp add: run_ops_def)
next
  case (Cons a ops)
  have "lru_inv (apply_op a c) \<and> maxSize (apply_op a c) = maxSize c"
    using Cons.prems lru_inv_set[of c] lru_inv_get[of c] by (cases a) auto
  with Cons.IH[of "apply_op a c"] Cons.prems show ?case by (simp add: run_ops_def)
qed

text \<open>
  A cache of capacity at least 1 that is only written and read (no \<^verbatim>\<open>delete\<close>, no
  \<^verbatim>\<open>clear\<close>) stays within its capacity.
\<close>

lemma size_bounded_without_removal:
  "0 < n \<Longrightarrow> list_all no_removal ops \<Longrightarrow> jsmap_size (cache (run_ops ops (new_BaseCache n))) \<le> n"
  using lru_inv_run_ops[of "new_BaseCache n" ops]
  by (simp add: lru_inv_def new_BaseCache_def jsmap_size_def)


section \<open>Bounded Cache: the recency scenario and the size bound\<close>

text \<open>
  Claim C2.  On a cache of capacity 2, \<^verbatim>\<open>set(a,1)\<close>, \<^verbatim>\<open>set(b,2)\<close>, \<^verbatim>\<open>get(a)\<close>, \<^verbatim>\<open>set(c,3)\<close>
  is claimed to evict \<open>b\<close> and keep \<open>a\<close> and \<open>c\<close>.  \<^verbatim>\<open>get\<close> calls \<^verbatim>\<open>accessOrder.set\<close> on a
  key that is already in the Map, which leaves the key at its place in the order, so
  \<open>a\<close> is still the first key when \<open>c\<close> is written: the code evicts \<open>a\<close> and keeps \<open>b\<close>
  and \<open>c\<close>.
\<close>

theorem recency_scenario_evicts_a:
  "\<not> BaseCache_has (run_ops [Set ''a'' (1::int), Set ''b'' 2, Get ''a'', Set ''c'' 3] (new_BaseCache 2)) ''a''
   \<and> BaseCache_has (run_ops [Set ''a'' (1::int), Set ''b'' 2, Get ''a'', Set ''c'' 3] (new_BaseCache 2)) ''b''
   \<and> BaseCache_has (run_ops [Set ''a'' (1::int), Set ''b'' 2, Get ''a'', Set ''c'' 3] (new_BaseCache 2)) ''c''"
  by code_simp

text \<open>
  Claim C6.  The number of stored keys is claimed never to exceed the capacity.
  \<^verbatim>\<open>delete\<close> removes the key from \<^verbatim>\<open>cache\<close> and leaves it in \<^verbatim>\<open>accessOrder\<close>; a later
  \<^verbatim>\<open>set\<close> on a full cache then evicts that stale key, which frees nothing.  On a cache
  of capacity 2, \<^verbatim>\<open>set(a,1)\<close>, \<^verbatim>\<open>delete(a)\<close>, \<^verbatim>\<open>set(b,2)\<close>, \<^verbatim>\<open>set(c,3)\<close>, \<^verbatim>\<open>set(d,4)\<close> leaves
  three keys stored.
\<close>

theorem delete_breaks_size_bound:
  "jsmap_size (cache (run_ops [Set ''a'' (1::int), Delete ''a'', Set ''b'' 2, Set ''c'' 3, Set ''d'' 4]
                        (new_BaseCache 2))) = 3"
  by code_simp


section \<open>Event Store: deduplication and order\<close>

lemma cache_getEvents [simp]: "cache (fst (getEvents c v)) = cache c"
  by (simp add: getEvents_def BaseCache_get_def split: option.splits)

lemma snd_getEvents:
  "snd (getEvents c v) = (case map_of (cache c) v of None \<Rightarrow> [] | Some es \<Rightarrow> es)"
  by (simp add: getEvents_def BaseCache_get_def jsmap_has_def jsmap_get_def split: option.splits)

lemma filter_known_ids: "filter (\<lambda>e. id_ev e \<notin> set (map id_ev es)) es = []"
  by (auto simp: filter_empty_conv)

text \<open>
  After \<^verbatim>\<open>push\<close> and \<^verbatim>\<open>sort\<close> the stored array and the array handed to \<^verbatim>\<open>setEvents\<close> are
  the same object, so nothing of the current events survives the filter and the merged
  list is the sorted one.
\<close>

lemma setEvents_after_push:
  assumes "cache c2 = jsmap_mutate (\<lambda>_. es) v (cache c1)"
  shows "setEvents c2 v es True = fst (BaseCache_set (fst (getEvents c2 v)) v es)"
proof (cases "map_of (cache c1) v")
  case None
  then have "snd (getEvents c2 v) = []" by (simp add: snd_getEvents assms map_of_jsmap_mutate)
  then show ?thesis by (simp add: setEvents_def Let_def split_beta)
next
  case (Some a)
  then have "snd (getEvents c2 v) = es" by (simp add: snd_getEvents assms map_of_jsmap_mutate)
  then show ?thesis by (simp add: setEvents_def Let_def split_beta filter_known_ids)
qed

lemma addEvent_rejects:
  "id_ev ev = [] \<or> isDuplicate (snd (getEvents c v)) ev \<Longrightarrow>
     addEvent c v (Some ev) = ((if id_ev ev = [] then c else fst (getEvents c v)), False)"
  by (auto simp: addEvent_def Let_def split_beta)

lemma addEvent_accepts:
  assumes "id_ev ev \<noteq> []" "\<not> isDuplicate (snd (getEvents c v)) ev"
  shows "\<exists>c2. cache c2 = jsmap_mutate (\<lambda>_. sort_desc (snd (getEvents c v) @ [ev])) v (cache c) \<and>
              addEvent c v (Some ev) =
                (fst (BaseCache_set (fst (getEvents c2 v)) v (sort_desc (snd (getEvents c v) @ [ev]))), True)"
proof -
  let ?es = "sort_desc (snd (getEvents c v) @ [ev])"
  let ?c2 = "(fst (getEvents c v))\<lparr>cache := jsmap_mutate (\<lambda>_. ?es) v (cache (fst (getEvents c v)))\<rparr>"
  have c2: "cache ?c2 = jsmap_mutate (\<lambda>_. ?es) v (cache (fst (getEvents c v)))" by simp
  have "addEvent c v (Some ev) = (setEvents ?c2 v ?es True, True)"
    using assms by (simp add: addEvent_def Let_def split_beta)
  also have "setEvents ?c2 v ?es True = fst (BaseCache_set (fst (getEvents ?c2 v)) v ?es)"
    by (rule setEvents_after_push[OF c2])
  finally show ?thesis using c2 by (intro exI[of _ ?c2]) simp
qed

lemma addEvent_cache_values:
  assumes "p \<in> set (cache (fst (addEvent c v e)))"
  shows "p \<in> set (cache c) \<or> (\<exists>ev. e = Some ev \<and> snd p = sort_desc (snd (getEvents c v) @ [ev]))"
proof (cases e)
  case None
  then show ?thesis using assms by (simp add: addEvent_def)
next
  case (Some ev)
  show ?thesis
  proof (cases "id_ev ev = [] \<or> isDuplicate (snd (getEvents c v)) ev")
    case True
    then show ?thesis using assms Some by (auto simp: addEvent_rejects split: if_splits)
  next
    case False
    then obtain c2 where c2: "cache c2 = jsmap_mutate (\<lambda>_. sort_desc (snd (getEvents c v) @ [ev])) v (cache c)"
      and a: "addEvent c v (Some ev) =
                (fst (BaseCache_set (fst (getEvents c2 v)) v (sort_desc (snd (getEvents c v) @ [ev]))), True)"
      using addEvent_accepts[of ev c v] by blast
    from assms Some a have "p \<in> insert (v, sort_desc (snd (getEvents c v) @ [ev])) (set (cache c2))"
      using set_cache_BaseCache_set[of "fst (getEvents c2 v)" v] by auto
    then show ?thesis using c2 Some snd_jsmap_mutate_const[of p _ v "cache c"] by auto
  qed
qed

lemma sorted_desc_sort_desc: "sorted_desc (sort_desc es)"
proof -
  have "sorted (map (\<lambda>e. - created_at e) (sort_key (\<lambda>e. - created_at e) es))" by simp
  then show ?thesis
    by (simp add: sorted_desc_def sort_desc_def sorted_map sorted_wrt_iff_nth_less)
qed

lemma addEvent_events:
  "snd (getEvents (fst (addEvent c v (Some ev))) v) =
     (if id_ev ev = [] \<or> isDuplicate (snd (getEvents c v)) ev then snd (getEvents c v)
      else sort_desc (snd (getEvents c v) @ [ev]))"
proof (cases "id_ev ev = [] \<or> isDuplicate (snd (getEvents c v)) ev")
  case True
  then show ?thesis by (auto simp: addEvent_rejects snd_getEvents)
next
  case False
  then obtain c2 where a: "addEvent c v (Some ev) =
                (fst (BaseCache_set (fst (getEvents c2 v)) v (sort_desc (snd (getEvents c v) @ [ev]))), True)"
    using addEvent_accepts[of ev c v] by blast
  show ?thesis using False
    by (simp add: a snd_getEvents[of "fst (BaseCache_set _ _ _)"] map_of_BaseCache_set)
qed

lemma snd_addEvent:
  "snd (addEvent c v (Some ev)) = (id_ev ev \<noteq> [] \<and> \<not> isDuplicate (snd (getEvents c v)) ev)"
  by (auto simp: addEvent_def Let_def split_beta)

lemma length_filter_insort_key:
  "length (filter P (insort_key f x xs)) = length (filter P (x # xs))"
  by (induction xs) auto

lemma length_filter_sort_key: "length (filter P (sort_key f xs)) = length (filter P xs)"
  by (induction xs) (auto simp: length_filter_insort_key)

lemma isDuplicate_counts: "isDuplicate es ev = (0 < count_id (id_ev ev) es \<or> 0 < count_same ev es)"
  by (auto simp: isDuplicate_def count_id_def count_same_def list_ex_iff filter_empty_conv)

lemma count_after_accept:
  assumes "\<not> isDuplicate es ev"
  shows "count_id (id_ev ev) (sort_desc (es @ [ev])) = 1" "count_same ev (sort_desc (es @ [ev])) = 1"
  using assms
  by (auto simp: isDuplicate_counts count_id_def count_same_def sort_desc_def length_filter_sort_key)

text \<open>
  Claim C4.  \<^verbatim>\<open>addEvent(viewId, event)\<close> returns true exactly when the event is newly
  accepted, that is when it has an id and no stored event of the view has the same id or
  the same (kind, pubkey, content, created_at); the view then holds its events and the new
  one, sorted, with exactly one entry for the new id and for the new content.  Otherwise
  it returns false and the view's events are unchanged.  Under the first dedup rule, an
  event whose id is stored once is rejected and the id is still stored once; under the
  second, an event with a new id and the content of one stored event is rejected, that
  content is still stored once and the new id is not stored.
\<close>

theorem addEvent_dedup:
  "snd (addEvent c v (Some ev)) = (id_ev ev \<noteq> [] \<and> \<not> isDuplicate (viewEvents c v) ev)
   \<and> viewEvents (fst (addEvent c v (Some ev))) v =
       (if snd (addEvent c v (Some ev)) then sort_desc (viewEvents c v @ [ev]) else viewEvents c v)
   \<and> (snd (addEvent c v (Some ev)) \<longrightarrow>
        count_id (id_ev ev) (viewEvents (fst (addEvent c v (Some ev))) v) = 1
        \<and> count_same ev (viewEvents (fst (addEvent c v (Some ev))) v) = 1)
   \<and> (count_id (id_ev ev) (viewEvents c v) = 1 \<longrightarrow>
        \<not> snd (addEvent c v (Some ev))
        \<and> count_id (id_ev ev) (viewEvents (fst (addEvent c v (Some ev))) v) = 1)
   \<and> (count_id (id_ev ev) (viewEvents c v) = 0 \<and> count_same ev (viewEvents c v) = 1 \<longrightarrow>
        \<not> snd (addEvent c v (Some ev))
        \<and> count_same ev (viewEvents (fst (addEvent c v (Some ev))) v) = 1
        \<and> count_id (id_ev ev) (viewEvents (fst (addEvent c v (Some ev))) v) = 0)"
proof -
  let ?evs = "viewEvents c v"
  have acc: "snd (addEvent c v (Some ev)) = (id_ev ev \<noteq> [] \<and> \<not> isDuplicate ?evs ev)"
    by (simp add: snd_addEvent viewEvents_def)
  have evs': "viewEvents (fst (addEvent c v (Some ev))) v =
       (if snd (addEvent c v (Some ev)) then sort_desc (?evs @ [ev]) else ?evs)"
    using addEvent_events[of c v ev] acc by (auto simp: viewEvents_def)
  have one: "snd (addEvent c v (Some ev)) \<Longrightarrow>
        count_id (id_ev ev) (sort_desc (?evs @ [ev])) = 1 \<and> count_same ev (sort_desc (?evs @ [ev])) = 1"
    using acc count_after_accept[of ?evs ev] by simp
  have dup1: "count_id (id_ev ev) ?evs = 1 \<Longrightarrow> \<not> snd (addEvent c v (Some ev))"
    using acc by (simp add: isDuplicate_counts)
  have dup2: "count_same ev ?evs = 1 \<Longrightarrow> \<not> snd (addEvent c v (Some ev))"
    using acc by (simp add: isDuplicate_counts)
  show ?thesis using acc evs' one dup1 dup2 by auto
qed

text \<open>
  The three cases on a view that holds one receipt: the same id again, a new id with the
  same content, and a new receipt.
\<close>

theorem addEvent_dedup_witness:
  "count_id ''e1'' (viewEvents (view_store [zap ''e1'' 1000]) ''view'') = 1
   \<and> \<not> snd (addEvent (view_store [zap ''e1'' 1000]) ''view'' (Some (zap ''e1'' 1000)))
   \<and> count_id ''e1''
       (viewEvents (fst (addEvent (view_store [zap ''e1'' 1000]) ''view'' (Some (zap ''e1'' 1000)))) ''view'') = 1
   \<and> count_id ''e2'' (viewEvents (view_store [zap ''e1'' 1000]) ''view'') = 0
   \<and> count_same same_receipt (viewEvents (view_store [zap ''e1'' 1000]) ''view'') = 1
   \<and> \<not> snd (addEvent (view_store [zap ''e1'' 1000]) ''view'' (Some same_receipt))
   \<and> count_same same_receipt
       (viewEvents (fst (addEvent (view_store [zap ''e1'' 1000]) ''view'' (Some same_receipt))) ''view'') = 1
   \<and> snd (addEvent (view_store [zap ''e1'' 1000]) ''view'' (Some (zap ''e3'' 900)))
   \<and> count_id ''e3''
       (viewEvents (fst (addEvent (view_store [zap ''e1'' 1000]) ''view'' (Some (zap ''e3'' 900)))) ''view'') = 1"
proof -
  let ?c = "view_store [zap ''e1'' 1000]"
  have i1: "id_ev (zap ''e1'' 1000) = ''e1''" and i2: "id_ev same_receipt = ''e2''"
    and i3: "id_ev (zap ''e3'' 900) = ''e3''"
    by (simp_all add: zap_def same_receipt_def)
  have h1: "count_id ''e1'' (viewEvents ?c ''view'') = 1" by code_simp
  have h2: "count_id ''e2'' (viewEvents ?c ''view'') = 0" by code_simp
  have h3: "count_same same_receipt (viewEvents ?c ''view'') = 1" by code_simp
  have h4: "snd (addEvent ?c ''view'' (Some (zap ''e3'' 900)))" by code_simp
  have c1: "\<not> snd (addEvent ?c ''view'' (Some (zap ''e1'' 1000)))"
    "count_id ''e1'' (viewEvents (fst (addEvent ?c ''view'' (Some (zap ''e1'' 1000)))) ''view'') = 1"
    using addEvent_dedup[of ?c "''view''" "zap ''e1'' 1000"] h1 unfolding i1 by blast+
  have c2: "\<not> snd (addEvent ?c ''view'' (Some same_receipt))"
    "count_same same_receipt (viewEvents (fst (addEvent ?c ''view'' (Some same_receipt))) ''view'') = 1"
    using addEvent_dedup[of ?c "''view''" same_receipt] h2 h3 unfolding i2 by blast+
  have c3: "count_id ''e3'' (viewEvents (fst (addEvent ?c ''view'' (Some (zap ''e3'' 900)))) ''view'') = 1"
    using addEvent_dedup[of ?c "''view''" "zap ''e3'' 900"] h4 unfolding i3 by blast
  show ?thesis using h1 h2 h3 h4 c1 c2 c3 by (intro conjI)
qed

lemma keys_jsmap_mutate: "map fst (jsmap_mutate f k m) = map fst m"
  by (induction m) (auto simp: jsmap_mutate_def)

lemma distinct_BaseCache_set:
  "distinct (map fst (cache c)) \<Longrightarrow> distinct (map fst (cache (fst (BaseCache_set c k v))))"
  by (simp add: BaseCache_set_def Let_def distinct_jsmap_set distinct_jsmap_delete
      split: option.splits)

lemma distinct_addEvent:
  assumes "distinct (map fst (cache c))"
  shows "distinct (map fst (cache (fst (addEvent c v e))))"
proof (cases e)
  case None
  then show ?thesis using assms by (simp add: addEvent_def)
next
  case (Some ev)
  show ?thesis
  proof (cases "id_ev ev = [] \<or> isDuplicate (snd (getEvents c v)) ev")
    case True
    then show ?thesis using assms Some by (auto simp: addEvent_rejects)
  next
    case False
    then obtain c2 where c2: "cache c2 = jsmap_mutate (\<lambda>_. sort_desc (snd (getEvents c v) @ [ev])) v (cache c)"
      and a: "addEvent c v (Some ev) =
                (fst (BaseCache_set (fst (getEvents c2 v)) v (sort_desc (snd (getEvents c v) @ [ev]))), True)"
      using addEvent_accepts[of ev c v] by blast
    have "distinct (map fst (cache (fst (getEvents c2 v))))"
      using assms c2 by (simp add: keys_jsmap_mutate)
    from distinct_BaseCache_set[OF this] show ?thesis using Some a by simp
  qed
qed

text \<open>
  A call for any view \<open>v\<close> leaves the events of a view \<open>w\<close> sorted: they are the list
  just sorted, or the list that was there, or gone with an evicted entry.
\<close>

lemma addEvent_keeps_view_sorted:
  assumes "distinct (map fst (cache c))" "sorted_desc (viewEvents c w)"
  shows "sorted_desc (viewEvents (fst (addEvent c v e)) w)"
proof (cases "map_of (cache (fst (addEvent c v e))) w")
  case None
  then show ?thesis by (simp add: viewEvents_def snd_getEvents sorted_desc_def)
next
  case (Some es)
  then have "(w, es) \<in> set (cache (fst (addEvent c v e)))" by (rule map_of_SomeD)
  from addEvent_cache_values[OF this]
  have "sorted_desc es"
  proof
    assume "(w, es) \<in> set (cache c)"
    then have "map_of (cache c) w = Some es" using assms(1) by simp
    then show ?thesis using assms(2) by (simp add: viewEvents_def snd_getEvents)
  next
    assume "\<exists>ev. e = Some ev \<and> snd (w, es) = sort_desc (snd (getEvents c v) @ [ev])"
    then show ?thesis using sorted_desc_sort_desc by auto
  qed
  then show ?thesis using Some by (simp add: viewEvents_def snd_getEvents)
qed

lemma addEvents_keep_view_sorted:
  "distinct (map fst (cache c)) \<Longrightarrow> sorted_desc (viewEvents c w) \<Longrightarrow>
     sorted_desc (viewEvents (addEvents calls c) w)"
proof (induction calls arbitrary: c)
  case Nil
  then show ?case by (simp add: addEvents_def)
next
  case (Cons a calls)
  from Cons.IH[OF distinct_addEvent[OF Cons.prems(1), of "fst a" "snd a"]
                 addEvent_keeps_view_sorted[OF Cons.prems, of "fst a" "snd a"]]
  show ?case by (simp add: addEvents_def)
qed

text \<open>
  Claim C5.  After any sequence of \<^verbatim>\<open>addEvent\<close> calls (on any views, with any events, null
  ones included), \<^verbatim>\<open>getEvents(viewId)\<close> returns a sequence sorted by \<^verbatim>\<open>created_at\<close>
  descending: for every view when the sequence starts from an empty Event Store of any
  capacity, and for a view whose events are sorted at the start (an empty view is)
  whatever the store holds for the other views.
\<close>

theorem getEvents_sorted_after_addEvents:
  "sorted_desc (snd (getEvents (addEvents calls (new_BaseCache n)) viewId))
   \<and> (distinct (map fst (cache c)) \<and> sorted_desc (snd (getEvents c viewId)) \<longrightarrow>
        sorted_desc (snd (getEvents (addEvents calls c) viewId)))"
proof -
  have "distinct (map fst (cache (new_BaseCache n :: ZapEventCache)))"
       "sorted_desc (viewEvents (new_BaseCache n) viewId)"
    by (simp_all add: new_BaseCache_def viewEvents_def snd_getEvents sorted_desc_def)
  from addEvents_keep_view_sorted[OF this] addEvents_keep_view_sorted[of c viewId calls]
  show ?thesis by (simp add: viewEvents_def)
qed

text \<open>
  A view that is empty at the start, beside another view whose stored events are not
  sorted.
\<close>

theorem getEvents_sorted_after_addEvents_witness:
  "distinct (map fst (cache other_view_store))
   \<and> snd (getEvents other_view_store ''view'') = []
   \<and> sorted_desc (snd (getEvents other_view_store ''view''))
   \<and> sorted_desc (snd (getEvents (addEvents interleaved_calls other_view_store) ''view''))
   \<and> map id_ev (snd (getEvents (addEvents interleaved_calls other_view_store) ''view''))
       = [''e1000'', ''e950'', ''e900'']"
proof -
  have h1: "distinct (map fst (cache other_view_store))" by (simp add: other_view_store_def)
  have h2: "snd (getEvents other_view_store ''view'') = []" by code_simp
  have h3: "sorted_desc (snd (getEvents other_view_store ''view''))"
    by (simp add: h2 sorted_desc_def)
  have c: "sorted_desc (snd (getEvents (addEvents interleaved_calls other_view_store) ''view''))"
    using getEvents_sorted_after_addEvents[of interleaved_calls 0 "''view''" other_view_store] h1 h3
    by blast
  have v: "map id_ev (snd (getEvents (addEvents interleaved_calls other_view_store) ''view''))
       = [''e1000'', ''e950'', ''e900'']"
    by code_simp
  show ?thesis using h1 h2 h3 c v by (intro conjI)
qed


section \<open>Reference Resolver Cache: single flight and settling\<close>

text \<open>
  Claim C7.  When no reference is cached for an event id and no fetch for it is in
  flight, a first \<^verbatim>\<open>getOrFetch\<close> calls \<^verbatim>\<open>fetchFn\<close> and returns a new pending promise; a
  second call for the same id, made before the fetch settles, returns that same promise,
  and across the two calls \<^verbatim>\<open>fetchFn\<close> has been called exactly once.  More generally any
  call made while a fetch for the id is in flight returns the pending promise and calls
  no \<^verbatim>\<open>fetchFn\<close>.
\<close>

theorem getOrFetch_single_flight:
  "(jsmap_get (cache (refs rc)) eventId = None \<and> jsmap_get (pendingFetches rc) eventId = None \<longrightarrow>
      snd (getOrFetch rc eventId) = Pending (nextPromise rc)
      \<and> snd (getOrFetch (fst (getOrFetch rc eventId)) eventId) = Pending (nextPromise rc)
      \<and> fetchCalls (fst (getOrFetch rc eventId)) = fetchCalls rc @ [eventId]
      \<and> fetchCalls (fst (getOrFetch (fst (getOrFetch rc eventId)) eventId)) = fetchCalls rc @ [eventId])
   \<and> (jsmap_get (cache (refs rc)) eventId = None \<and> jsmap_get (pendingFetches rc) eventId = Some p \<longrightarrow>
      snd (getOrFetch rc eventId) = Pending p
      \<and> fetchCalls (fst (getOrFetch rc eventId)) = fetchCalls rc
      \<and> pendingFetches (fst (getOrFetch rc eventId)) = pendingFetches rc)"
  by (simp add: getOrFetch_def BaseCache_get_def jsmap_has_def jsmap_get_def map_of_jsmap_set)

text \<open>
  Three calls for one event id before the fetch settles: the first starts the fetch, the
  second and the third return its promise.
\<close>

theorem getOrFetch_single_flight_witness:
  "jsmap_get (cache (refs no_references)) ''e1'' = None
   \<and> jsmap_get (pendingFetches no_references) ''e1'' = None
   \<and> snd (getOrFetch no_references ''e1'') = Pending 0
   \<and> snd (getOrFetch (fst (getOrFetch no_references ''e1'')) ''e1'') = Pending 0
   \<and> fetchCalls (fst (getOrFetch (fst (getOrFetch no_references ''e1'')) ''e1'')) = [''e1'']
   \<and> jsmap_get (cache (refs (fst (getOrFetch (fst (getOrFetch no_references ''e1'')) ''e1'')))) ''e1''
       = None
   \<and> jsmap_get (pendingFetches (fst (getOrFetch (fst (getOrFetch no_references ''e1'')) ''e1''))) ''e1''
       = Some 0
   \<and> snd (getOrFetch (fst (getOrFetch (fst (getOrFetch no_references ''e1'')) ''e1'')) ''e1'')
       = Pending 0
   \<and> fetchCalls (fst (getOrFetch (fst (getOrFetch (fst (getOrFetch no_references ''e1'')) ''e1'')) ''e1''))
       = [''e1'']"
proof -
  let ?rc1 = "fst (getOrFetch no_references ''e1'')"
  let ?rc2 = "fst (getOrFetch ?rc1 ''e1'')"
  have h1: "jsmap_get (cache (refs no_references)) ''e1'' = None" by code_simp
  have h2: "jsmap_get (pendingFetches no_references) ''e1'' = None" by code_simp
  have n: "nextPromise no_references = 0" "fetchCalls no_references = []"
    by (simp_all add: no_references_def)
  have g1: "jsmap_get (cache (refs ?rc2)) ''e1'' = None" by code_simp
  have g2: "jsmap_get (pendingFetches ?rc2) ''e1'' = Some 0" by code_simp
  have c1: "snd (getOrFetch no_references ''e1'') = Pending 0"
    "snd (getOrFetch ?rc1 ''e1'') = Pending 0"
    "fetchCalls ?rc2 = [''e1'']"
    using getOrFetch_single_flight[of no_references "''e1''" 0] h1 h2 unfolding n by simp_all
  have c2: "snd (getOrFetch ?rc2 ''e1'') = Pending 0"
    "fetchCalls (fst (getOrFetch ?rc2 ''e1'')) = fetchCalls ?rc2"
    using getOrFetch_single_flight[of ?rc2 "''e1''" 0] g1 g2 by blast+
  show ?thesis using h1 h2 c1 g1 g2 c2 by simp
qed

text \<open>
  Claim C8.  When the fetch for an event id settles, the in-flight marker of the id is
  cleared whatever the outcome, and no \<^verbatim>\<open>fetchFn\<close> is called again.  A rejected fetch
  and a fetch that found nothing both resolve to null and leave the cache as it was; a
  fetch that found a reference stores it under the id and resolves to it.
\<close>

theorem fetchSettled_outcomes:
  "jsmap_get (pendingFetches (fst (fetchSettled rc eventId outcome))) eventId = None
   \<and> fetchCalls (fst (fetchSettled rc eventId outcome)) = fetchCalls rc
   \<and> fetchSettled rc eventId Rejected =
       (rc\<lparr>pendingFetches := jsmap_delete (pendingFetches rc) eventId\<rparr>, None)
   \<and> fetchSettled rc eventId (Fulfilled None) =
       (rc\<lparr>pendingFetches := jsmap_delete (pendingFetches rc) eventId\<rparr>, None)
   \<and> fetchSettled rc eventId (Fulfilled (Some r)) =
       (rc\<lparr>refs := fst (BaseCache_set (refs rc) eventId r),
           pendingFetches := jsmap_delete (pendingFetches rc) eventId\<rparr>, Some r)
   \<and> jsmap_get (cache (fst (BaseCache_set (refs rc) eventId r))) eventId = Some r"
  by (simp add: fetchSettled_def jsmap_get_def map_of_jsmap_delete map_of_BaseCache_set
      split: fetch_outcome.splits option.splits)


section \<open>Subscription Coordinator: the load state during pagination\<close>

lemma getLoadState_stored:
  "jsmap_get (cache (stateRefs (fst (getLoadState lc v)))) v = Some (snd (getLoadState lc v))"
  by (simp add: getLoadState_def initializeLoadState_def newObject_def jsmap_get_def
      map_of_BaseCache_set split: option.splits)

lemma getLoadState_again:
  "snd (getLoadState (fst (getLoadState lc v)) v) = snd (getLoadState lc v)"
  "objects (fst (getLoadState (fst (getLoadState lc v)) v)) = objects (fst (getLoadState lc v))"
  using getLoadState_stored[of lc v]
  by (simp_all add: getLoadState_def[of "fst (getLoadState lc v)"])

lemma foundLoadState_again:
  "foundLoadState (s\<lparr>loadStateCache := fst (getLoadState (loadStateCache s) v)\<rparr>) v = foundLoadState s v"
  by (simp add: foundLoadState_def case_prod_unfold getLoadState_again)

lemma getLoadState_loading:
  assumes "isLoading (objects (fst (getLoadState lc v)) (snd (getLoadState lc v)))"
  shows "cache (stateRefs (fst (getLoadState lc v))) = cache (stateRefs lc)"
    and "objects (fst (getLoadState lc v)) = objects lc"
  using assms
  by (simp_all add: getLoadState_def initializeLoadState_def newObject_def initialState_def
      split: option.splits)

lemma assignLoading_fields [simp]:
  "stateRefs (loadStateCache (assignLoading b r s)) = stateRefs (loadStateCache s)"
  "zapEventCache (assignLoading b r s) = zapEventCache s"
  "observers (assignLoading b r s) = observers s"
  "loadTriggers (assignLoading b r s) = loadTriggers s"
  "subscribeCalls (assignLoading b r s) = subscribeCalls s"
  "viewConfigs (assignLoading b r s) = viewConfigs s"
  "isLoading (objects (loadStateCache (assignLoading b r s)) r) = b"
  by (simp_all add: assignLoading_def)

lemma cleanup_fields [simp]:
  "loadStateCache (cleanupInfiniteScroll v s) = loadStateCache s"
  "zapEventCache (cleanupInfiniteScroll v s) = zapEventCache s"
  "subscribeCalls (cleanupInfiniteScroll v s) = subscribeCalls s"
  by (simp_all add: cleanupInfiniteScroll_def)

lemma onevents_fields [simp]:
  "stateRefs (loadStateCache (snd (onevents l es p s))) = stateRefs (loadStateCache s)"
  "zapEventCache (snd (onevents l es p s)) = zapEventCache s"
  "observers (snd (onevents l es p s)) = observers s"
  "loadTriggers (snd (onevents l es p s)) = loadTriggers s"
  "subscribeCalls (snd (onevents l es p s)) = subscribeCalls s"
  "capturedState (fst (onevents l es p s)) = capturedState p"
  "known (fst (onevents l es p s)) = known p"
  by (simp_all add: onevents_def case_prod_unfold split: option.splits)

lemma executeLoadMore_rest_fields [simp]:
  "stateRefs (loadStateCache (fst (executeLoadMore_rest env v eose late p s))) = stateRefs (loadStateCache s)"
  "subscribeCalls (fst (executeLoadMore_rest env v eose late p s)) = subscribeCalls s"
  by (simp_all add: executeLoadMore_rest_def Let_def case_prod_unfold split: option.splits)

lemma loadMoreZaps_finish_fields:
  "stateRefs (loadStateCache (fst (loadMoreZaps_finish env v eose late p s))) = stateRefs (loadStateCache s)"
  "subscribeCalls (fst (loadMoreZaps_finish env v eose late p s)) = subscribeCalls s"
  "isLoading (objects (loadStateCache (fst (loadMoreZaps_finish env v eose late p s))) (capturedState p)) = False"
  by (simp_all add: loadMoreZaps_finish_def case_prod_unfold split: completion.splits)

text \<open>What the first part of a call leaves behind when the guard lets it through.\<close>

lemma loadMoreZaps_start_blocked:
  "\<not> canLoadMore (foundLoadState s v) (viewConfigs s v) \<Longrightarrow>
     loadMoreZaps_start env v s =
       (s\<lparr>loadStateCache := fst (getLoadState (loadStateCache s) v)\<rparr>, Finished (Returned 0))"
  by (simp add: loadMoreZaps_start_def foundLoadState_def Let_def split: prod.splits)

lemma loadMoreZaps_start_passed:
  assumes "canLoadMore (foundLoadState s v) (viewConfigs s v)"
  shows "\<exists>p s1. loadMoreZaps_start env v s = (s1, InFlight p)
           \<and> capturedState p = snd (getLoadState (loadStateCache s) v)
           \<and> collected p = [] \<and> \<not> resolveCalled p
           \<and> (known p = None) = (decodeIdentifier env = Returned True \<and> subscribeToZaps env \<noteq> SubscribeThrows)
           \<and> (decodeIdentifier env \<noteq> Threw \<longrightarrow> known p \<noteq> Some Threw)
           \<and> (known p \<noteq> None \<longrightarrow> known p = Some Threw \<or> known p = Some (Returned 0))
           \<and> objects (loadStateCache s1) (capturedState p) = (foundLoadState s v)\<lparr>isLoading := True\<rparr>
           \<and> stateRefs (loadStateCache s1) = stateRefs (fst (getLoadState (loadStateCache s) v))
           \<and> zapEventCache s1 = zapEventCache s \<and> observers s1 = observers s
           \<and> loadTriggers s1 = loadTriggers s
           \<and> subscribeCalls s1 =
               (if decodeIdentifier env = Returned True then Suc (subscribeCalls s) else subscribeCalls s)"
  using assms
  by (auto simp: loadMoreZaps_start_def foundLoadState_def Let_def assignLoading_def
      split: prod.splits completion.splits subscription.splits)

lemma loadMoreZaps_blocked:
  "\<not> canLoadMore (foundLoadState s v) (viewConfigs s v) \<Longrightarrow>
     loadMoreZaps env v s =
       (s\<lparr>loadStateCache := fst (getLoadState (loadStateCache s) v)\<rparr>, Returned 0)"
  by (simp add: loadMoreZaps_def loadMoreZaps_start_blocked)

lemma loadMoreZaps_run:
  assumes "loadMoreZaps_start env v s = (s1, InFlight p)"
  shows "\<exists>eose late p1 s2. loadMoreZaps env v s = loadMoreZaps_finish env v eose late p1 s2
           \<and> capturedState p1 = capturedState p
           \<and> stateRefs (loadStateCache s2) = stateRefs (loadStateCache s1)
           \<and> subscribeCalls s2 = subscribeCalls s1"
proof (cases "subscribeToZaps env")
  case SubscribeThrows
  then show ?thesis using assms by (auto simp: loadMoreZaps_def)
next
  case (Delivers early eose late)
  obtain p1 s2 where o: "onevents (batchSize env) early p s1 = (p1, s2)"
    by (cases "onevents (batchSize env) early p s1")
  have "capturedState p1 = capturedState p" "stateRefs (loadStateCache s2) = stateRefs (loadStateCache s1)"
    "subscribeCalls s2 = subscribeCalls s1"
    using onevents_fields(1,5,6)[of "batchSize env" early p s1] o by simp_all
  then show ?thesis using assms Delivers o by (auto simp: loadMoreZaps_def)
qed

text \<open>
  The three parts of claim C3 for a call during which nothing else touches the manager:
  a subscription is opened only past the guard; a call that finds the flag at true returns
  0 and changes nothing; a call that finds the flag at false leaves it at false.
\<close>

lemma subscription_only_past_guard:
  assumes "subscribeCalls (fst (loadMoreZaps env v s)) \<noteq> subscribeCalls s"
  shows "\<not> isLoading (foundLoadState s v) \<and> lastEventTime (foundLoadState s v) \<noteq> None"
proof (cases "canLoadMore (foundLoadState s v) (viewConfigs s v)")
  case True
  then show ?thesis by (auto simp: canLoadMore_def truthy_def split: option.splits)
next
  case False
  then show ?thesis using assms by (simp add: loadMoreZaps_blocked)
qed

lemma call_while_loading_is_noop:
  assumes "isLoading (foundLoadState s v)"
  shows "snd (loadMoreZaps env v s) = Returned 0"
    and "subscribeCalls (fst (loadMoreZaps env v s)) = subscribeCalls s"
    and "cache (stateRefs (loadStateCache (fst (loadMoreZaps env v s)))) = cache (stateRefs (loadStateCache s))"
    and "objects (loadStateCache (fst (loadMoreZaps env v s))) = objects (loadStateCache s)"
    and "zapEventCache (fst (loadMoreZaps env v s)) = zapEventCache s"
    and "observers (fst (loadMoreZaps env v s)) = observers s"
    and "loadTriggers (fst (loadMoreZaps env v s)) = loadTriggers s"
proof -
  have b: "loadMoreZaps env v s =
       (s\<lparr>loadStateCache := fst (getLoadState (loadStateCache s) v)\<rparr>, Returned 0)"
    using assms by (intro loadMoreZaps_blocked) (simp add: canLoadMore_def)
  have l: "isLoading (objects (fst (getLoadState (loadStateCache s) v))
                              (snd (getLoadState (loadStateCache s) v)))"
    using assms by (simp add: foundLoadState_def case_prod_unfold)
  show "snd (loadMoreZaps env v s) = Returned 0"
    and "subscribeCalls (fst (loadMoreZaps env v s)) = subscribeCalls s"
    and "cache (stateRefs (loadStateCache (fst (loadMoreZaps env v s)))) = cache (stateRefs (loadStateCache s))"
    and "objects (loadStateCache (fst (loadMoreZaps env v s))) = objects (loadStateCache s)"
    and "zapEventCache (fst (loadMoreZaps env v s)) = zapEventCache s"
    and "observers (fst (loadMoreZaps env v s)) = observers s"
    and "loadTriggers (fst (loadMoreZaps env v s)) = loadTriggers s"
    using getLoadState_loading[OF l] by (simp_all add: b)
qed

lemma undisturbed_call_resets_flag:
  assumes "\<not> isLoading (foundLoadState s v)"
  shows "map_option isLoading (viewLoadState (fst (loadMoreZaps env v s)) v) = Some False"
proof (cases "canLoadMore (foundLoadState s v) (viewConfigs s v)")
  case False
  show ?thesis
    using assms getLoadState_stored[of "loadStateCache s" v]
    by (simp add: loadMoreZaps_blocked[OF False] viewLoadState_def foundLoadState_def
        case_prod_unfold)
next
  case True
  from loadMoreZaps_start_passed[OF True, of env] obtain p s1 where
    st: "loadMoreZaps_start env v s = (s1, InFlight p)"
    and cp: "capturedState p = snd (getLoadState (loadStateCache s) v)"
    and refs: "stateRefs (loadStateCache s1) = stateRefs (fst (getLoadState (loadStateCache s) v))"
    by blast
  from loadMoreZaps_run[OF st] obtain eose late p1 s2 where
    run: "loadMoreZaps env v s = loadMoreZaps_finish env v eose late p1 s2"
    and cp1: "capturedState p1 = capturedState p"
    and refs2: "stateRefs (loadStateCache s2) = stateRefs (loadStateCache s1)"
    by blast
  have "jsmap_get (cache (stateRefs (loadStateCache (fst (loadMoreZaps env v s))))) v
          = Some (capturedState p1)"
    using getLoadState_stored[of "loadStateCache s" v]
    by (simp add: run loadMoreZaps_finish_fields refs2 refs cp1 cp)
  then show ?thesis
    using loadMoreZaps_finish_fields(3)[of env v eose late p1 s2]
    by (simp add: viewLoadState_def run)
qed

text \<open>
  Claim C3.  The claim is that every \<^verbatim>\<open>loadMoreZaps\<close> call, whether it succeeds or fails,
  leaves the view's load state with \<^verbatim>\<open>isLoading\<close> false, so that the flag is never stuck
  at true.  \<^verbatim>\<open>loadMoreZaps\<close> assigns the flag, in its \<^verbatim>\<open>finally\<close> block too, to the object it
  took from the cache at its start, while \<^verbatim>\<open>updateLoadState\<close> replaces the object in the
  cache by a copy.  When a second initialisation of the view finalizes while a pagination
  is in flight, the copy is made with the flag at true, and the \<^verbatim>\<open>finally\<close> block resets
  the object that the cache no longer holds.  The pagination completes with one new
  receipt, the view's load state keeps \<^verbatim>\<open>isLoading\<close> true, every later \<^verbatim>\<open>loadMoreZaps\<close> for
  the view returns 0 without a subscription and leaves the flag at true, and the scroll
  handler only reschedules itself.
\<close>

theorem stale_object_leaves_flag_stuck:
  "map_option isLoading (viewLoadState armed_view ''view'') = Some False
   \<and> snd overlapping_initialisations = Returned 1
   \<and> map_option isLoading (viewLoadState (fst overlapping_initialisations) ''view'') = Some True
   \<and> snd (loadMoreZaps (relays [zap ''e900'' 900] True) ''view'' (fst overlapping_initialisations))
       = Returned 0
   \<and> subscribeCalls (fst (loadMoreZaps (relays [zap ''e900'' 900] True) ''view''
                             (fst overlapping_initialisations)))
       = subscribeCalls (fst overlapping_initialisations)
   \<and> map_option isLoading
       (viewLoadState (fst (loadMoreZaps (relays [zap ''e900'' 900] True) ''view''
                              (fst overlapping_initialisations))) ''view'') = Some True
   \<and> snd (handleIntersection (relays [zap ''e900'' 900] True) True ''view''
            (fst overlapping_initialisations)) = RetryScheduled"
  by code_simp


section \<open>Subscription Coordinator: an empty or failed batch\<close>

lemma collectEvents_cursor_only:
  "lastEventTime st1 = lastEventTime st2 \<Longrightarrow>
     fst (collectEvents limit es b st1) = fst (collectEvents limit es b st2) \<and>
     snd (snd (collectEvents limit es b st1)) = snd (snd (collectEvents limit es b st2))"
proof (induction es arbitrary: b st1 st2)
  case Nil
  show ?case by simp
next
  case (Cons a es)
  let ?t = "Some (min (toNumber (lastEventTime st2)) (created_at a))"
  have "lastEventTime (st1\<lparr>lastEventTime := ?t\<rparr>) = lastEventTime (st2\<lparr>lastEventTime := ?t\<rparr>)"
    by simp
  from Cons.IH[OF this, of "b @ [a]"] Cons.IH[OF Cons.prems, of b] Cons.prems
  show ?case by (auto simp: Let_def min_def case_prod_unfold)
qed

lemma collectedBatch_isLoading: "collectedBatch env (st\<lparr>isLoading := x\<rparr>) = collectedBatch env st"
proof -
  have "fst (collectEvents l es [] (st\<lparr>isLoading := x\<rparr>)) = fst (collectEvents l es [] st)"
       "snd (snd (collectEvents l es [] (st\<lparr>isLoading := x\<rparr>))) = snd (snd (collectEvents l es [] st))"
    for l es
    using collectEvents_cursor_only[of "st\<lparr>isLoading := x\<rparr>" st l es "[]"] by simp_all
  then show ?thesis
    by (simp add: collectedBatch_def case_prod_unfold split: subscription.splits)
qed

lemma executeLoadMore_rest_zero:
  assumes "known p = Some (Returned 0)
           \<or> known p = None \<and> (collected p = [] \<or> \<not> (resolveCalled p \<or> eose))"
  shows "snd (executeLoadMore_rest env v eose late p s) = Returned 0"
  using assms by (auto simp: executeLoadMore_rest_def)

lemma executeLoadMore_rest_observers:
  "(observers (fst (executeLoadMore_rest env v eose late p s)) = observers s \<and>
    loadTriggers (fst (executeLoadMore_rest env v eose late p s)) = loadTriggers s) \<or>
   (observers (fst (executeLoadMore_rest env v eose late p s)) = observers (cleanupInfiniteScroll v s) \<and>
    loadTriggers (fst (executeLoadMore_rest env v eose late p s)) = loadTriggers (cleanupInfiniteScroll v s))"
  by (simp add: executeLoadMore_rest_def Let_def case_prod_unfold split: option.splits)

lemma loadMoreZaps_finish_zero:
  "snd (executeLoadMore_rest env v eose late p s) = Returned 0 \<Longrightarrow>
     snd (loadMoreZaps_finish env v eose late p s) = Returned 0"
  by (cases "executeLoadMore_rest env v eose late p s") (simp add: loadMoreZaps_finish_def)

lemma loadMoreZaps_finish_observers:
  "(observers (fst (loadMoreZaps_finish env v eose late p s)) = observers s \<and>
    loadTriggers (fst (loadMoreZaps_finish env v eose late p s)) = loadTriggers s) \<or>
   (observers (fst (loadMoreZaps_finish env v eose late p s)) = observers (cleanupInfiniteScroll v s) \<and>
    loadTriggers (fst (loadMoreZaps_finish env v eose late p s)) = loadTriggers (cleanupInfiniteScroll v s))"
  using executeLoadMore_rest_observers[of env v eose late p s]
  by (simp add: loadMoreZaps_finish_def case_prod_unfold split: completion.splits)

lemma cleanup_same_document:
  "observers s' = observers s \<Longrightarrow> loadTriggers s' = loadTriggers s \<Longrightarrow>
     observers (cleanupInfiniteScroll v s') = observers (cleanupInfiniteScroll v s) \<and>
     loadTriggers (cleanupInfiniteScroll v s') = loadTriggers (cleanupInfiniteScroll v s)"
  by (simp add: cleanupInfiniteScroll_def)

lemma loadMoreZaps_observers:
  "(observers (fst (loadMoreZaps env v s)) = observers s \<and>
    loadTriggers (fst (loadMoreZaps env v s)) = loadTriggers s) \<or>
   (observers (fst (loadMoreZaps env v s)) = observers (cleanupInfiniteScroll v s) \<and>
    loadTriggers (fst (loadMoreZaps env v s)) = loadTriggers (cleanupInfiniteScroll v s))"
proof (cases "canLoadMore (foundLoadState s v) (viewConfigs s v)")
  case False
  then show ?thesis by (simp add: loadMoreZaps_blocked)
next
  case True
  from loadMoreZaps_start_passed[OF True, of env] obtain p s1 where
    st: "loadMoreZaps_start env v s = (s1, InFlight p)"
    and o: "observers s1 = observers s" "loadTriggers s1 = loadTriggers s"
    by blast
  show ?thesis
  proof (cases "subscribeToZaps env")
    case SubscribeThrows
    then show ?thesis
      using st loadMoreZaps_finish_observers[of env v False "[]" p s1] o
        cleanup_same_document[OF o, of v]
      by (auto simp: loadMoreZaps_def)
  next
    case (Delivers early eose late)
    obtain p1 s2 where ev: "onevents (batchSize env) early p s1 = (p1, s2)"
      by (cases "onevents (batchSize env) early p s1")
    have o2: "observers s2 = observers s" "loadTriggers s2 = loadTriggers s"
      using onevents_fields(3,4)[of "batchSize env" early p s1] ev o by simp_all
    show ?thesis
      using st Delivers ev loadMoreZaps_finish_observers[of env v eose late p1 s2] o2
        cleanup_same_document[OF o2, of v]
      by (auto simp: loadMoreZaps_def)
  qed
qed

lemma loadMoreZaps_zero:
  assumes "decodeIdentifier env \<noteq> Threw"
      and "collectedBatch env (foundLoadState s v) = None
           \<or> collectedBatch env (foundLoadState s v) = Some []"
  shows "snd (loadMoreZaps env v s) = Returned 0"
proof (cases "canLoadMore (foundLoadState s v) (viewConfigs s v)")
  case False
  then show ?thesis by (simp add: loadMoreZaps_blocked)
next
  case True
  from loadMoreZaps_start_passed[OF True, of env] obtain p s1 where
    st: "loadMoreZaps_start env v s = (s1, InFlight p)"
    and c: "collected p = []" "\<not> resolveCalled p"
    and k0: "(known p = None) = (decodeIdentifier env = Returned True \<and> subscribeToZaps env \<noteq> SubscribeThrows)"
           "decodeIdentifier env \<noteq> Threw \<longrightarrow> known p \<noteq> Some Threw"
           "known p \<noteq> None \<longrightarrow> known p = Some Threw \<or> known p = Some (Returned 0)"
    and obj: "objects (loadStateCache s1) (capturedState p) = (foundLoadState s v)\<lparr>isLoading := True\<rparr>"
    by (elim exE conjE) (rule that; assumption)
  have k: "(known p = None) = (decodeIdentifier env = Returned True \<and> subscribeToZaps env \<noteq> SubscribeThrows)"
           "known p \<noteq> Some Threw"
           "known p \<noteq> None \<longrightarrow> known p = Some Threw \<or> known p = Some (Returned 0)"
    using k0 assms(1) by simp_all
  show ?thesis
  proof (cases "subscribeToZaps env")
    case SubscribeThrows
    then have "known p = Some (Returned 0)" using k by auto
    then show ?thesis
      using st SubscribeThrows
      by (simp add: loadMoreZaps_def loadMoreZaps_finish_zero executeLoadMore_rest_zero)
  next
    case (Delivers early eose late)
    obtain p1 s2 where ev: "onevents (batchSize env) early p s1 = (p1, s2)"
      by (cases "onevents (batchSize env) early p s1")
    have run: "loadMoreZaps env v s = loadMoreZaps_finish env v eose late p1 s2"
      using st Delivers ev by (simp add: loadMoreZaps_def)
    show ?thesis
    proof (cases "known p")
      case (Some c)
      then have "known p1 = Some (Returned 0)"
        using k onevents_fields(7)[of "batchSize env" early p s1] ev by auto
      then show ?thesis
        by (simp add: run loadMoreZaps_finish_zero executeLoadMore_rest_zero)
    next
      case None
      have cb: "collectedBatch env ((foundLoadState s v)\<lparr>isLoading := True\<rparr>) = None
                \<or> collectedBatch env ((foundLoadState s v)\<lparr>isLoading := True\<rparr>) = Some []"
        using assms(2) by (simp add: collectedBatch_isLoading)
      have p1: "known p1 = None"
        "collected p1 = fst (collectEvents (batchSize env) early [] ((foundLoadState s v)\<lparr>isLoading := True\<rparr>))"
        "resolveCalled p1 = snd (snd (collectEvents (batchSize env) early [] ((foundLoadState s v)\<lparr>isLoading := True\<rparr>)))"
        using ev None c obj by (auto simp: onevents_def case_prod_unfold)
      have "collected p1 = [] \<or> \<not> (resolveCalled p1 \<or> eose)"
        using cb Delivers p1
        by (auto simp: collectedBatch_def case_prod_unfold split: if_splits)
      then show ?thesis
        using p1(1) by (simp add: run loadMoreZaps_finish_zero executeLoadMore_rest_zero)
    qed
  qed
qed

lemma cleanup_after:
  assumes "(observers s1 = observers s \<and> loadTriggers s1 = loadTriggers s) \<or>
           (observers s1 = observers (cleanupInfiniteScroll v s) \<and>
            loadTriggers s1 = loadTriggers (cleanupInfiniteScroll v s))"
  shows "\<not> observers (cleanupInfiniteScroll v s1) v \<and>
         loadTriggers (cleanupInfiniteScroll v s1) v =
           (if observers s v then map_option (\<lambda>n. n - 1) (loadTriggers s v) else loadTriggers s v)"
  using assms by (auto simp: cleanupInfiniteScroll_def)

text \<open>
  Claim C10, as the code has it.  The scroll observer reports an intersection for a view
  that is not loading.  If the pagination batch then fails (the subscription throws or
  times out) or has collected no event older than the cursor, \<^verbatim>\<open>loadMoreZaps\<close> reports 0,
  and \<^verbatim>\<open>_handleIntersection\<close> tears the infinite scroll down: the view has no observer any
  more, and where it had one, one load trigger has been removed from its list.
\<close>

theorem empty_collection_disarms:
  assumes "\<not> isLoading (foundLoadState s v)"
      and "decodeIdentifier env \<noteq> Threw"
      and "collectedBatch env (foundLoadState s v) = None
           \<or> collectedBatch env (foundLoadState s v) = Some []"
  shows "snd (loadMoreZaps env v s) = Returned 0
       \<and> snd (handleIntersection env True v s) = Loaded (Returned 0)
       \<and> \<not> observers (fst (handleIntersection env True v s)) v
       \<and> loadTriggers (fst (handleIntersection env True v s)) v =
           (if observers s v then map_option (\<lambda>n. n - 1) (loadTriggers s v) else loadTriggers s v)"
proof -
  obtain lc st where g: "getLoadState (loadStateCache s) v = (lc, st)"
    by (cases "getLoadState (loadStateCache s) v")
  let ?s0 = "s\<lparr>loadStateCache := lc\<rparr>"
  have f0: "foundLoadState ?s0 v = foundLoadState s v"
    using foundLoadState_again[of s v] g by simp
  have nl: "\<not> isLoading (objects lc st)"
    using assms(1) g by (simp add: foundLoadState_def)
  have z: "snd (loadMoreZaps env v s) = Returned 0" by (rule loadMoreZaps_zero[OF assms(2,3)])
  have z0: "snd (loadMoreZaps env v ?s0) = Returned 0"
    using assms(3) by (intro loadMoreZaps_zero[OF assms(2)]) (simp add: f0)
  obtain s1 where l: "loadMoreZaps env v ?s0 = (s1, Returned 0)"
    using z0 by (cases "loadMoreZaps env v ?s0") simp
  have h: "handleIntersection env True v s = (cleanupInfiniteScroll v s1, Loaded (Returned 0))"
    using g nl l by (simp add: handleIntersection_def)
  have same: "observers ?s0 = observers s" "loadTriggers ?s0 = loadTriggers s" by simp_all
  have "(observers s1 = observers s \<and> loadTriggers s1 = loadTriggers s) \<or>
           (observers s1 = observers (cleanupInfiniteScroll v s) \<and>
            loadTriggers s1 = loadTriggers (cleanupInfiniteScroll v s))"
    using loadMoreZaps_observers[of env v ?s0] l cleanup_same_document[OF same, of v] by auto
  from cleanup_after[OF this] z h show ?thesis by simp
qed

text \<open>A batch that times out after one event has arrived: nothing is reported or kept.\<close>

theorem empty_collection_disarms_witness:
  "\<not> isLoading (foundLoadState (steady_manager 1000 [zap ''e1000'' 1000]) ''view'')
   \<and> decodeIdentifier (relays [zap ''e950'' 950] False) \<noteq> Threw
   \<and> collectedBatch (relays [zap ''e950'' 950] False)
       (foundLoadState (steady_manager 1000 [zap ''e1000'' 1000]) ''view'') = None
   \<and> snd (handleIntersection (relays [zap ''e950'' 950] False) True ''view''
            (steady_manager 1000 [zap ''e1000'' 1000])) = Loaded (Returned 0)
   \<and> \<not> observers (fst (handleIntersection (relays [zap ''e950'' 950] False) True ''view''
                          (steady_manager 1000 [zap ''e1000'' 1000]))) ''view''
   \<and> loadTriggers (fst (handleIntersection (relays [zap ''e950'' 950] False) True ''view''
                          (steady_manager 1000 [zap ''e1000'' 1000]))) ''view'' = Some 0"
proof -
  let ?s = "steady_manager 1000 [zap ''e1000'' 1000]"
  let ?env = "relays [zap ''e950'' 950] False"
  have h1: "\<not> isLoading (foundLoadState ?s ''view'')" by code_simp
  have h2: "decodeIdentifier ?env \<noteq> Threw" by (simp add: relays_def)
  have h3: "collectedBatch ?env (foundLoadState ?s ''view'') = None" by code_simp
  have o: "observers ?s ''view''" "loadTriggers ?s ''view'' = Some 1"
    by (simp_all add: steady_manager_def)
  have c: "snd (handleIntersection ?env True ''view'' ?s) = Loaded (Returned 0)"
    "\<not> observers (fst (handleIntersection ?env True ''view'' ?s)) ''view''"
    "loadTriggers (fst (handleIntersection ?env True ''view'' ?s)) ''view'' = Some 0"
    using empty_collection_disarms[OF h1 h2 disjI1[OF h3]] o by simp_all
  show ?thesis using h1 h2 h3 c by (intro conjI)
qed

text \<open>
  Claim C10 as stated speaks of a batch that yields zero accepted events.  On a reopened
  view the Event Store still holds the receipts of times 1000 and 950 and the cursor is
  1000.  The batch delivers the receipt of time 950 and the end of stream: the Event Store
  rejects it as a duplicate and holds what it held, so the batch has yielded no accepted
  event; yet the count reported is 1, the length of the collected batch, and the observer
  and the load trigger stay in place.
\<close>

theorem rejected_batch_stays_armed:
  "map id_ev (viewEvents (zapEventCache reopened_view) ''view'') = [''e1000'', ''e950'']
   \<and> \<not> snd (addEvent (zapEventCache reopened_view) ''view'' (Some (zap ''e950'' 950)))
   \<and> map id_ev (viewEvents (zapEventCache (fst (handleIntersection (relays [zap ''e950'' 950] True)
                                                  True ''view'' reopened_view))) ''view'')
       = [''e1000'', ''e950'']
   \<and> snd (loadMoreZaps (relays [zap ''e950'' 950] True) ''view'' reopened_view) = Returned 1
   \<and> snd (handleIntersection (relays [zap ''e950'' 950] True) True ''view'' reopened_view)
       = Loaded (Returned 1)
   \<and> observers (fst (handleIntersection (relays [zap ''e950'' 950] True) True ''view''
                        reopened_view)) ''view''
   \<and> loadTriggers (fst (handleIntersection (relays [zap ''e950'' 950] True) True ''view''
                           reopened_view)) ''view'' = Some 1"
  by code_simp


section \<open>Subscription Coordinator: the pagination cursor\<close>









section \<open>Subscription Coordinator: the pagination scenario\<close>

text \<open>
  Claim C1.  The view's cursor is 1000 and its Event Store holds the receipt of time 1000.
  The pagination subscription delivers the receipts of times 950, 980, 1000 (the stored
  one again) and 920, in this order, and then the end of stream.  The claim is that 950,
  980 and 920 are accepted, in any arrival order, with a reported count of 3.
  \<^verbatim>\<open>_collectEvents\<close> compares every arrival with the cursor it has already moved: 950
  moves the cursor to 950, and 980 is then dropped as not older than the cursor.  The code
  keeps 950 and 920, reports 2 and leaves the cursor at 920.
\<close>

theorem out_of_order_arrival_drops_event:
  "snd (pagination_scenario [zap ''e950'' 950, zap ''e980'' 980, zap ''e1000'' 1000, zap ''e920'' 920])
     = Returned 2
   \<and> map id_ev (viewEvents (zapEventCache (fst (pagination_scenario
        [zap ''e950'' 950, zap ''e980'' 980, zap ''e1000'' 1000, zap ''e920'' 920]))) ''view'')
     = [''e1000'', ''e950'', ''e920'']
   \<and> map_option lastEventTime (viewLoadState (fst (pagination_scenario
        [zap ''e950'' 950, zap ''e980'' 980, zap ''e1000'' 1000, zap ''e920'' 920])) ''view'')
     = Some (Some 920)"
  by code_simp

text \<open>When the same receipts arrive newest first, all three are kept and 3 is reported.\<close>

lemma descending_arrival_keeps_all:
  "snd (pagination_scenario [zap ''e1000'' 1000, zap ''e980'' 980, zap ''e950'' 950, zap ''e920'' 920])
     = Returned 3
   \<and> map id_ev (viewEvents (zapEventCache (fst (pagination_scenario
        [zap ''e1000'' 1000, zap ''e980'' 980, zap ''e950'' 950, zap ''e920'' 920]))) ''view'')
     = [''e1000'', ''e980'', ''e950'', ''e920'']
   \<and> map_option lastEventTime (viewLoadState (fst (pagination_scenario
        [zap ''e1000'' 1000, zap ''e980'' 980, zap ''e950'' 950, zap ''e920'' 920])) ''view'')
     = Some (Some 920)"
  by code_simp

end
